theory Spec2Isabelle
  imports Complex_Main
begin

section \<open>Python values\<close>

text \<open>
  The client is Python 2 code (the implicit relative import of \<open>errors\<close>, and the
  \<open>startswith\<close> test on an encoded subject, only work there), so strings come in two
  types. It works on the decoded JSON payloads of the vendor API: \<open>None\<close>, booleans,
  integers, byte strings (\<open>str\<close>), text (\<open>unicode\<close>), lists and dicts with text keys.
  A dict is an association list with distinct keys, in iteration order; \<open>wf_val\<close> states
  the distinctness, which every Python dict has. Characters are 8-bit, so text is covered
  up to U+00FF; floating-point numbers are not part of the model.
\<close>

datatype pyval =
    VNone
  | VBool bool
  | VInt int
  | VStr string
  | VUni string
  | VList "pyval list"
  | VDict "(string \<times> pyval) list"

text \<open>The exceptions the code can raise: \<open>SailthruApiError\<close> with its text, and the
  built-in ones raised by operations on values of the wrong type.\<close>

datatype error =
    ApiError string
  | KeyError
  | AttributeError
  | TypeError
  | UnicodeDecodeError

text \<open>Truth value of an object, as tested by \<open>if old_val\<close> and \<open>not base_response.json\<close>.\<close>

fun truthy :: "pyval \<Rightarrow> bool" where
  "truthy VNone = False"
| "truthy (VBool b) = b"
| "truthy (VInt n) = (n \<noteq> 0)"
| "truthy (VStr s) = (s \<noteq> [])"
| "truthy (VUni s) = (s \<noteq> [])"
| "truthy (VList xs) = (xs \<noteq> [])"
| "truthy (VDict kvs) = (kvs \<noteq> [])"

text \<open>\<open>type(v) == dict\<close>.\<close>

fun is_dict :: "pyval \<Rightarrow> bool" where
  "is_dict (VDict kvs) = True"
| "is_dict v = False"

text \<open>\<open>d.get(k, dflt)\<close> and \<open>d[k] = v\<close> on the entries of a dict.\<close>

definition dict_get :: "(string \<times> pyval) list \<Rightarrow> string \<Rightarrow> pyval \<Rightarrow> pyval" where
  "dict_get d k dflt = (case map_of d k of None \<Rightarrow> dflt | Some v \<Rightarrow> v)"

fun dict_set :: "(string \<times> pyval) list \<Rightarrow> string \<Rightarrow> pyval \<Rightarrow> (string \<times> pyval) list" where
  "dict_set [] k v = [(k, v)]"
| "dict_set ((k', v') # d) k v = (if k' = k then (k, v) # d else (k', v') # dict_set d k v)"

fun wf_val :: "pyval \<Rightarrow> bool" where
  "wf_val (VDict kvs) = (distinct (map fst kvs) \<and> (\<forall>kv \<in> set kvs. wf_val (snd kv)))"
| "wf_val (VList xs) = (\<forall>x \<in> set xs. wf_val x)"
| "wf_val v = True"

section \<open>Result normalizer\<close>

text \<open>
  \<open>merge_results(result_json, defaults)\<close>. The first loop runs over \<open>defaults.items()\<close>
  (\<open>merge_defaults\<close>, whose body computes \<open>new_val\<close>), the second over
  \<open>result_json.items()\<close> (\<open>copy_missing\<close>). Calling \<open>.get\<close> or \<open>.items\<close> on a value that
  is not a dict raises \<open>AttributeError\<close>.
\<close>

fun copy_missing ::
  "(string \<times> pyval) list \<Rightarrow> (string \<times> pyval) list \<Rightarrow> (string \<times> pyval) list" where
  "copy_missing [] results = results"
| "copy_missing ((k, v) # rest) results =
     copy_missing rest (if k \<in> fst ` set results then results else dict_set results k v)"

fun merge_results :: "pyval \<Rightarrow> pyval \<Rightarrow> error + pyval"
  and new_val :: "(string \<times> pyval) list \<Rightarrow> string \<Rightarrow> pyval \<Rightarrow> error + pyval"
  and merge_defaults ::
    "(string \<times> pyval) list \<Rightarrow> (string \<times> pyval) list \<Rightarrow> (string \<times> pyval) list
      \<Rightarrow> error + (string \<times> pyval) list"
where
  "merge_results (VDict result_json) (VDict defaults) =
     (case merge_defaults result_json defaults [] of
        Inl e \<Rightarrow> Inl e
      | Inr results \<Rightarrow> Inr (VDict (copy_missing result_json results)))"
| "merge_results result_json defaults = Inl AttributeError"
| "new_val result_json k v =
     (if is_dict v then
        (let old_val = dict_get result_json k (VDict []) in
         if truthy old_val \<and> truthy v then merge_results old_val v
         else if truthy old_val then Inr old_val
         else Inr v)
      else Inr (dict_get result_json k v))"
| "merge_defaults result_json [] results = Inr results"
| "merge_defaults result_json ((k, v) # rest) results =
     (case new_val result_json k v of
        Inl e \<Rightarrow> Inl e
      | Inr nv \<Rightarrow> merge_defaults result_json rest (dict_set results k nv))"

text \<open>The raw values on which the merge does not raise: below every non-empty default
  mapping, the raw value is falsy or again a mapping of that kind.\<close>

fun conforms :: "pyval \<Rightarrow> pyval \<Rightarrow> bool" where
  "conforms (VDict r) (VDict d) =
     (\<forall>kv \<in> set d. is_dict (snd kv) \<and> truthy (snd kv) \<and> truthy (dict_get r (fst kv) (VDict []))
        \<longrightarrow> conforms (dict_get r (fst kv) (VDict [])) (snd kv))"
| "conforms r d = False"

section \<open>Strings\<close>

text \<open>\<open>s.startswith(p)\<close>, \<open>s.endswith(p)\<close> and \<open>sub in s\<close> on character lists.\<close>

definition startswith :: "string \<Rightarrow> string \<Rightarrow> bool" where
  "startswith s p = (take (length p) s = p)"

definition endswith :: "string \<Rightarrow> string \<Rightarrow> bool" where
  "endswith s p = (length p \<le> length s \<and> drop (length s - length p) s = p)"

fun str_contains :: "string \<Rightarrow> string \<Rightarrow> bool" where
  "str_contains sub [] = (sub = [])"
| "str_contains sub (c # s) = (startswith (c # s) sub \<or> str_contains sub s)"

text \<open>\<open>lower()\<close>: a byte string changes only A to Z; text also changes the upper-case
  letters of the Latin-1 block (U+00C0 to U+00DE, without the multiplication sign).\<close>

definition ascii_lower_char :: "char \<Rightarrow> char" where
  "ascii_lower_char c =
     (let n = (of_char c :: nat) in if 65 \<le> n \<and> n \<le> 90 then char_of (n + 32) else c)"

definition unicode_lower_char :: "char \<Rightarrow> char" where
  "unicode_lower_char c =
     (let n = (of_char c :: nat) in
      if (65 \<le> n \<and> n \<le> 90) \<or> (192 \<le> n \<and> n \<le> 222 \<and> n \<noteq> 215)
      then char_of (n + 32) else c)"

text \<open>\<open>encode('utf-8', errors='replace')\<close>: text becomes its UTF-8 bytes; a byte string
  is first decoded as ASCII, which fails on a byte above 127.\<close>

definition is_ascii :: "string \<Rightarrow> bool" where
  "is_ascii s = (\<forall>c \<in> set s. (of_char c :: nat) < 128)"

definition utf8_char :: "char \<Rightarrow> string" where
  "utf8_char c =
     (let n = (of_char c :: nat) in
      if n < 128 then [c] else [char_of (192 + n div 64), char_of (128 + n mod 64)])"

definition utf8_encode :: "string \<Rightarrow> string" where
  "utf8_encode s = concat (map utf8_char s)"

text \<open>
  The three regular expressions of the classifier. \<open>sub_at_end m n s\<close> is
  \<open>re.sub(p + '$', '', s)\<close> for a pattern \<open>p\<close> that matches exactly the strings of length
  \<open>n\<close> accepted by \<open>m\<close>: \<open>$\<close> matches at the end of the string and before a final newline.
  \<open>blast_list_re\<close> is \<open>' [Bb]last [Ll]ist'\<close>, \<open>weekender_re\<close> is \<open>' [Ww]eekender'\<close>, and
  \<open>dive_re_match\<close> is \<open>re.match('[A-Za-z]+ Dive: [a-zA-Z]+', s)\<close>.
\<close>

definition is_letter :: "char \<Rightarrow> bool" where
  "is_letter c =
     (let n = (of_char c :: nat) in (65 \<le> n \<and> n \<le> 90) \<or> (97 \<le> n \<and> n \<le> 122))"

definition sub_at_end :: "(string \<Rightarrow> bool) \<Rightarrow> nat \<Rightarrow> string \<Rightarrow> string" where
  "sub_at_end m n s =
     (if n \<le> length s \<and> m (drop (length s - n) s) then take (length s - n) s
      else if n + 1 \<le> length s \<and> drop (length s - 1) s = [CHR 0x0A]
              \<and> m (take n (drop (length s - (n + 1)) s))
      then take (length s - (n + 1)) s @ [CHR 0x0A]
      else s)"

definition blast_list_re :: "string \<Rightarrow> bool" where
  "blast_list_re s =
     (s = '' Blast List'' \<or> s = '' Blast list'' \<or> s = '' blast List'' \<or> s = '' blast list'')"

definition weekender_re :: "string \<Rightarrow> bool" where
  "weekender_re s = (s = '' Weekender'' \<or> s = '' weekender'')"

definition dive_re_match :: "string \<Rightarrow> bool" where
  "dive_re_match s =
     (let word = takeWhile is_letter s; rest = dropWhile is_letter s in
      word \<noteq> [] \<and> startswith rest '' Dive: '' \<and>
      (case drop 7 rest of [] \<Rightarrow> False | c # cs \<Rightarrow> is_letter c))"

section \<open>Python operations on values\<close>

text \<open>Each operation raises where Python does: a method that the value's type does not
  have is an \<open>AttributeError\<close>, an operator the type does not support a \<open>TypeError\<close>.
  \<open>bind\<close> sequences two steps and stops at the first exception; \<open>py_or\<close> is the
  short-circuit \<open>or\<close>.\<close>

definition bind :: "error + 'a \<Rightarrow> ('a \<Rightarrow> error + 'b) \<Rightarrow> error + 'b" where
  "bind m f = (case m of Inl e \<Rightarrow> Inl e | Inr x \<Rightarrow> f x)"

definition py_or :: "error + bool \<Rightarrow> error + bool \<Rightarrow> error + bool" where
  "py_or a b = (case a of Inl e \<Rightarrow> Inl e | Inr x \<Rightarrow> if x then Inr True else b)"

fun py_get :: "pyval \<Rightarrow> string \<Rightarrow> pyval \<Rightarrow> error + pyval" where
  "py_get (VDict d) k dflt = Inr (dict_get d k dflt)"
| "py_get v k dflt = Inl AttributeError"

fun py_getitem :: "pyval \<Rightarrow> string \<Rightarrow> error + pyval" where
  "py_getitem (VDict d) k = (case map_of d k of None \<Rightarrow> Inl KeyError | Some v \<Rightarrow> Inr v)"
| "py_getitem v k = Inl TypeError"

fun py_setitem :: "pyval \<Rightarrow> string \<Rightarrow> pyval \<Rightarrow> error + pyval" where
  "py_setitem (VDict d) k v = Inr (VDict (dict_set d k v))"
| "py_setitem c k v = Inl TypeError"

fun py_eq_str :: "pyval \<Rightarrow> string \<Rightarrow> bool" where
  "py_eq_str (VStr s) x = (s = x)"
| "py_eq_str (VUni s) x = (s = x)"
| "py_eq_str v x = False"

fun py_in :: "string \<Rightarrow> pyval \<Rightarrow> error + bool" where
  "py_in x (VList xs) = Inr (\<exists>e \<in> set xs. py_eq_str e x)"
| "py_in x (VStr s) = Inr (str_contains x s)"
| "py_in x (VUni s) = Inr (str_contains x s)"
| "py_in x (VDict d) = Inr (x \<in> fst ` set d)"
| "py_in x v = Inl TypeError"

fun py_startswith :: "pyval \<Rightarrow> string \<Rightarrow> error + bool" where
  "py_startswith (VStr s) p = Inr (startswith s p)"
| "py_startswith (VUni s) p = Inr (startswith s p)"
| "py_startswith v p = Inl AttributeError"

fun py_endswith :: "pyval \<Rightarrow> string \<Rightarrow> error + bool" where
  "py_endswith (VStr s) p = Inr (endswith s p)"
| "py_endswith (VUni s) p = Inr (endswith s p)"
| "py_endswith v p = Inl AttributeError"

fun py_lower :: "pyval \<Rightarrow> error + pyval" where
  "py_lower (VStr s) = Inr (VStr (map ascii_lower_char s))"
| "py_lower (VUni s) = Inr (VUni (map unicode_lower_char s))"
| "py_lower v = Inl AttributeError"

fun py_encode :: "pyval \<Rightarrow> error + pyval" where
  "py_encode (VStr s) = (if is_ascii s then Inr (VStr s) else Inl UnicodeDecodeError)"
| "py_encode (VUni s) = Inr (VStr (utf8_encode s))"
| "py_encode v = Inl AttributeError"

fun re_sub :: "(string \<Rightarrow> bool) \<Rightarrow> nat \<Rightarrow> pyval \<Rightarrow> error + pyval" where
  "re_sub m n (VStr s) = Inr (VStr (sub_at_end m n s))"
| "re_sub m n (VUni s) = Inr (VUni (sub_at_end m n s))"
| "re_sub m n v = Inl TypeError"

fun re_match_dive :: "pyval \<Rightarrow> error + bool" where
  "re_match_dive (VStr s) = Inr (dive_re_match s)"
| "re_match_dive (VUni s) = Inr (dive_re_match s)"
| "re_match_dive v = Inl TypeError"

fun py_reversed :: "pyval \<Rightarrow> error + pyval list" where
  "py_reversed (VList xs) = Inr (rev xs)"
| "py_reversed (VStr s) = Inr (map (\<lambda>c. VStr [c]) (rev s))"
| "py_reversed (VUni s) = Inr (map (\<lambda>c. VUni [c]) (rev s))"
| "py_reversed v = Inl TypeError"

section \<open>Campaign classifier\<close>

text \<open>The tags of \<open>DiveEmailTypes\<close>.\<close>

definition Blast :: string where "Blast = ''blast''"
definition WelcomeSeries :: string where "WelcomeSeries = ''welcome''"
definition Newsletter :: string where "Newsletter = ''newsletter''"
definition Weekender :: string where "Weekender = ''weekender''"
definition Unknown :: string where "Unknown = ''unknown''"
definition BreakingNews :: string where "BreakingNews = ''breaking''"

text \<open>\<open>_infer_dive_email_type\<close>: the four fields are read and the subject is encoded
  before the first rule is tried; the rules are tried in the order of the source.\<close>

definition infer_dive_email_type :: "pyval \<Rightarrow> error + string" where
  "infer_dive_email_type campaign =
     bind (py_get campaign ''labels'' (VList [])) (\<lambda>labels.
     bind (py_get campaign ''name'' (VStr [])) (\<lambda>name.
     bind (py_get campaign ''list'' (VStr [])) (\<lambda>list.
     bind (bind (py_get campaign ''subject'' (VStr [])) py_encode) (\<lambda>subject.
     bind (py_or (py_in ''Blast'' labels) (py_in ''-blast-'' name)) (\<lambda>r1.
     if r1 then Inr Blast else
     bind (py_in ''Welcome Series'' labels) (\<lambda>r2.
     if r2 then Inr WelcomeSeries else
     bind (py_or (py_endswith list ''Weekender'')
                 (py_startswith name ''Newsletter Weekly Roundup'')) (\<lambda>r3.
     if r3 then Inr Weekender else
     bind (py_or (py_in ''newsletter'' labels) (py_startswith name ''Issue: '')) (\<lambda>r4.
     if r4 then Inr Newsletter else
     bind (bind (py_lower list) (\<lambda>l. py_endswith l ''blast list'')) (\<lambda>r5.
     if r5 then Inr Blast else
     bind (py_startswith subject ''BREAKING'') (\<lambda>r6.
     if r6 then Inr BreakingNews else Inr Unknown))))))))))"

text \<open>\<open>_infer_dive_brand\<close>: the brand is a string value or \<open>None\<close>.\<close>

definition infer_dive_brand :: "pyval \<Rightarrow> error + pyval" where
  "infer_dive_brand campaign =
     bind (py_get campaign ''list'' (VStr [])) (\<lambda>list.
     bind (bind (py_lower list) (\<lambda>l. py_endswith l ''blast list'')) (\<lambda>r1.
     if r1 then re_sub blast_list_re 11 list else
     bind (bind (py_lower list) (\<lambda>l. py_endswith l ''weekender'')) (\<lambda>r2.
     if r2 then re_sub weekender_re 10 list else
     bind (py_or (py_endswith list '' Dive'') (re_match_dive list)) (\<lambda>r3.
     if r3 then Inr list else Inr VNone))))"

text \<open>A campaign record whose classifier fields are each absent or of the type the
  vendor sends: \<open>labels\<close> a list, \<open>name\<close>, \<open>list\<close> and \<open>subject\<close> strings (a byte-string
  subject in ASCII).\<close>

fun is_list_val :: "pyval \<Rightarrow> bool" where
  "is_list_val (VList xs) = True"
| "is_list_val v = False"

fun is_text :: "pyval \<Rightarrow> bool" where
  "is_text (VStr s) = True"
| "is_text (VUni s) = True"
| "is_text v = False"

text \<open>The characters of a string value, and a string value of the same type with
  other characters.\<close>

fun text_val :: "pyval \<Rightarrow> string" where
  "text_val (VStr s) = s"
| "text_val (VUni s) = s"
| "text_val v = []"

fun with_text :: "pyval \<Rightarrow> string \<Rightarrow> pyval" where
  "with_text (VStr s) s' = VStr s'"
| "with_text (VUni s) s' = VUni s'"
| "with_text v s' = v"

fun is_encodable :: "pyval \<Rightarrow> bool" where
  "is_encodable (VStr s) = is_ascii s"
| "is_encodable (VUni s) = True"
| "is_encodable v = False"

fun field_ok :: "(pyval \<Rightarrow> bool) \<Rightarrow> pyval option \<Rightarrow> bool" where
  "field_ok P None = True"
| "field_ok P (Some v) = P v"

fun campaign_ok :: "pyval \<Rightarrow> bool" where
  "campaign_ok (VDict d) =
     (field_ok is_list_val (map_of d ''labels'') \<and> field_ok is_text (map_of d ''name'') \<and>
      field_ok is_text (map_of d ''list'') \<and> field_ok is_encodable (map_of d ''subject''))"
| "campaign_ok c = False"

fun has_key :: "pyval \<Rightarrow> string \<Rightarrow> bool" where
  "has_key (VDict d) k = (k \<in> fst ` set d)"
| "has_key c k = False"

section \<open>Campaign query service\<close>

text \<open>
  The vendor client is outside the repository. A response object is a record of what
  \<open>is_ok()\<close>, \<open>get_error().message\<close>, \<open>get_error().code\<close> and \<open>.json\<close> give. The text of the
  raised error is \<open>"%s (%s)" % (message, code)\<close>, with the code printed in decimal.
\<close>

record response =
  is_ok :: bool
  error_message :: string
  error_code :: int
  json :: pyval

function decimal :: "nat \<Rightarrow> string" where
  "decimal n =
     (if n < 10 then [char_of (48 + n)] else decimal (n div 10) @ [char_of (48 + n mod 10)])"
  by pat_completeness auto
termination
  by (relation "measure id") auto

definition str_of_int :: "int \<Rightarrow> string" where
  "str_of_int i = (if i < 0 then CHR ''-'' # decimal (nat (- i)) else decimal (nat i))"

definition format_error :: "string \<Rightarrow> int \<Rightarrow> string" where
  "format_error message code = message @ '' ('' @ str_of_int code @ '')''"

definition raise_exception_if_error :: "response \<Rightarrow> error + unit" where
  "raise_exception_if_error response =
     (if \<not> is_ok response
      then Inl (ApiError (format_error (error_message response) (error_code response)))
      else Inr ())"

text \<open>
  \<open>get_campaigns_in_range\<close>. A date is its day number, so that adding
  \<open>timedelta(days=30)\<close> is adding 30; the upper limit of the calendar type is not
  modelled. \<open>api_get\<close> stands for \<open>self.api_get('blast', api_params)\<close>: a query records the
  status, the two dates (which the source renders with \<open>strftime\<close>) and the optional list
  name. The function returns the queries it has sent, in order, next to its result.
\<close>

record blast_query =
  q_status :: string
  q_start_date :: int
  q_end_date :: int
  q_list :: "string option"

text \<open>The body of the \<open>for\<close> loop over one window's records.\<close>

definition enrich :: "pyval \<Rightarrow> error + pyval" where
  "enrich c =
     bind (infer_dive_email_type c) (\<lambda>t.
     bind (py_setitem c ''dive_email_type'' (VStr t)) (\<lambda>c1.
     bind (infer_dive_brand c1) (\<lambda>b.
     bind (py_setitem c1 ''dive_brand'' b) (\<lambda>c2.
     bind (py_getitem c2 ''subject'') (\<lambda>s.
     bind (py_encode s) (\<lambda>s'.
     py_setitem c2 ''subject'' s'))))))"

fun blasts_loop :: "pyval list \<Rightarrow> pyval list \<Rightarrow> error + pyval list" where
  "blasts_loop [] campaigns = Inr campaigns"
| "blasts_loop (c # cs) campaigns =
     (case enrich c of
        Inl e \<Rightarrow> Inl e
      | Inr c' \<Rightarrow> blasts_loop cs (campaigns @ [c']))"

definition PAGE_SIZE_IN_DAYS :: int where
  "PAGE_SIZE_IN_DAYS = 30"

function campaigns_loop ::
  "(blast_query \<Rightarrow> response) \<Rightarrow> string option \<Rightarrow> int \<Rightarrow> int \<Rightarrow> blast_query list
    \<Rightarrow> pyval list \<Rightarrow> blast_query list \<times> (error + pyval list)"
where
  "campaigns_loop api_get list_name page_start_date end_date calls campaigns =
     (if page_start_date < end_date then
        (let page_end_date =
               (if page_start_date + PAGE_SIZE_IN_DAYS > end_date then end_date
                else page_start_date + PAGE_SIZE_IN_DAYS);
             api_params = \<lparr>q_status = ''sent'', q_start_date = page_start_date,
                            q_end_date = page_end_date, q_list = list_name\<rparr>;
             result = api_get api_params;
             calls' = calls @ [api_params]
         in case raise_exception_if_error result of
              Inl e \<Rightarrow> (calls', Inl e)
            | Inr u \<Rightarrow>
                (case bind (bind (py_get (json result) ''blasts'' (VList [])) py_reversed)
                        (\<lambda>cs. blasts_loop cs campaigns) of
                   Inl e \<Rightarrow> (calls', Inl e)
                 | Inr campaigns' \<Rightarrow>
                     campaigns_loop api_get list_name page_end_date end_date calls' campaigns'))
      else (calls, Inr campaigns))"
  by pat_completeness auto
termination
  by (relation "measure (\<lambda>(api_get, list_name, page_start_date, end_date, calls, campaigns).
        nat (end_date - page_start_date))")
     (auto simp: PAGE_SIZE_IN_DAYS_def)

definition get_campaigns_in_range ::
  "(blast_query \<Rightarrow> response) \<Rightarrow> int \<Rightarrow> int \<Rightarrow> string option
    \<Rightarrow> blast_query list \<times> (error + pyval list)" where
  "get_campaigns_in_range api_get start_date end_date list_name =
     campaigns_loop api_get list_name start_date end_date [] []"

text \<open>One pass of the \<open>while\<close> body over a response, started with no campaigns: the
  error check, then the \<open>for\<close> loop over the reversed records.\<close>

definition page_campaigns :: "response \<Rightarrow> error + pyval list" where
  "page_campaigns result =
     bind (raise_exception_if_error result) (\<lambda>u.
     bind (bind (py_get (json result) ''blasts'' (VList [])) py_reversed) (\<lambda>cs.
     blasts_loop cs []))"

text \<open>The windows the \<open>while\<close> loop visits, the query sent for a window, and the records
  of a response body.\<close>

function page_windows :: "int \<Rightarrow> int \<Rightarrow> (int \<times> int) list" where
  "page_windows page_start_date end_date =
     (if page_start_date < end_date then
        (let page_end_date =
               (if page_start_date + PAGE_SIZE_IN_DAYS > end_date then end_date
                else page_start_date + PAGE_SIZE_IN_DAYS)
         in (page_start_date, page_end_date) # page_windows page_end_date end_date)
      else [])"
  by pat_completeness auto
termination
  by (relation "measure (\<lambda>(page_start_date, end_date). nat (end_date - page_start_date))")
     (auto simp: PAGE_SIZE_IN_DAYS_def)

definition window_query :: "string option \<Rightarrow> int \<times> int \<Rightarrow> blast_query" where
  "window_query list_name w =
     \<lparr>q_status = ''sent'', q_start_date = fst w, q_end_date = snd w, q_list = list_name\<rparr>"

definition blasts_of :: "response \<Rightarrow> pyval list" where
  "blasts_of r =
     (case json r of
        VDict d \<Rightarrow> (case dict_get d ''blasts'' (VList []) of VList cs \<Rightarrow> cs | _ \<Rightarrow> [])
      | _ \<Rightarrow> [])"

text \<open>A successful response whose body is a mapping with a list of campaign records
  under \<open>blasts\<close> (or no such key), each record accepted by \<open>P\<close>.\<close>

definition page_ok :: "(pyval \<Rightarrow> bool) \<Rightarrow> response \<Rightarrow> bool" where
  "page_ok P r =
     (is_ok r \<and>
      (case json r of
         VDict d \<Rightarrow> (case dict_get d ''blasts'' (VList []) of
                      VList cs \<Rightarrow> (\<forall>c \<in> set cs. P c)
                    | _ \<Rightarrow> False)
       | _ \<Rightarrow> False))"

definition sent_campaign_ok :: "pyval \<Rightarrow> bool" where
  "sent_campaign_ok c = (campaign_ok c \<and> has_key c ''subject'')"


section \<open>Safe user lookup\<close>

text \<open>\<open>_user_dict\<close>, \<open>_create_response\<close> and \<open>get_user\<close> of \<open>DiveSailthruClientSafe\<close>;
  \<open>vendor_get_user\<close> is the \<open>get_user\<close> of the vendor client.\<close>

definition user_dict :: pyval where
  "user_dict = VDict
     [(''keys'', VDict [(''sid'', VStr []), (''cookie'', VStr []), (''email'', VStr [])]),
      (''activity'', VStr []),
      (''vars'', VDict []),
      (''lists'', VDict []),
      (''engagement'', VStr []),
      (''optout_email'', VStr [])]"

definition create_response :: "response \<Rightarrow> pyval \<Rightarrow> error + response" where
  "create_response base_response defaults =
     (if \<not> is_ok base_response
      then Inl (ApiError (format_error (error_message base_response) (error_code base_response)))
      else if \<not> truthy (json base_response)
      then Inr (base_response\<lparr>json := defaults\<rparr>)
      else (case merge_results (json base_response) defaults of
              Inl e \<Rightarrow> Inl e
            | Inr new_json \<Rightarrow> Inr (base_response\<lparr>json := new_json\<rparr>)))"

definition get_user :: "('i \<Rightarrow> 'o \<Rightarrow> response) \<Rightarrow> 'i \<Rightarrow> 'o \<Rightarrow> error + response" where
  "get_user vendor_get_user idvalue options =
     create_response (vendor_get_user idvalue options) user_dict"

section \<open>Example inputs\<close>

text \<open>A successful response with a given body, a vendor \<open>get_user\<close> that answers with it,
  and a failed response.\<close>

definition demo_response :: "pyval \<Rightarrow> response" where
  "demo_response body = \<lparr>is_ok = True, error_message = [], error_code = 0, json = body\<rparr>"

definition demo_get_user :: "pyval \<Rightarrow> string \<Rightarrow> unit \<Rightarrow> response" where
  "demo_get_user body idvalue options = demo_response body"

definition demo_failure :: response where
  "demo_failure = \<lparr>is_ok = False, error_message = ''Invalid API key'', error_code = 9, json = VNone\<rparr>"

text \<open>A vendor that answers every window with two campaigns, the newer one first: one
  sent on the last day of the window and one on its first day. \<open>demo_time\<close> reads the day
  of a record. Two variants: the window starting on day 30 fails, or holds a record
  without subject.\<close>

definition demo_blast :: "int \<Rightarrow> pyval" where
  "demo_blast n = VDict [(''subject'', VUni ''Grid news''), (''day'', VInt n)]"

definition demo_api :: "blast_query \<Rightarrow> response" where
  "demo_api q =
     demo_response (VDict [(''blasts'',
       VList [demo_blast (q_end_date q - 1), demo_blast (q_start_date q)])])"


definition demo_api_failing :: "blast_query \<Rightarrow> response" where
  "demo_api_failing q = (if q_start_date q = 30 then demo_failure else demo_api q)"

definition demo_api_no_subject :: "blast_query \<Rightarrow> response" where
  "demo_api_no_subject q =
     (if q_start_date q = 30
      then demo_response (VDict [(''blasts'', VList [demo_blast 40, VDict [(''day'', VInt 31)]])])
      else demo_api q)"

section \<open>Properties of the normalizer\<close>

lemma map_of_dict_set: "map_of (dict_set d k v) = (map_of d)(k \<mapsto> v)"
  by (induction d) (auto simp: fun_eq_iff)

lemma keys_dict_set: "fst ` set (dict_set d k v) = insert k (fst ` set d)"
proof (induction d)
  case Nil
  then show ?case by simp
next
  case (Cons kv d)
  obtain k' v' where kv: "kv = (k', v')" by (cases kv)
  show ?case
  proof (cases "k' = k")
    case True
    then show ?thesis by (simp add: kv)
  next
    case False
    then show ?thesis using Cons.IH by (simp add: kv insert_commute)
  qed
qed

lemma dict_set_fresh: "k \<notin> fst ` set d \<Longrightarrow> dict_set d k v = d @ [(k, v)]"
  by (induction d) auto

lemma map_of_copy_missing:
  "map_of (copy_missing rs results) k =
     (case map_of results k of Some v \<Rightarrow> Some v | None \<Rightarrow> map_of rs k)"
proof (induction rs arbitrary: results)
  case Nil
  then show ?case by (simp split: option.splits)
next
  case (Cons kv rs)
  obtain k' v' where kv: "kv = (k', v')" by (cases kv)
  show ?case
  proof (cases "k' \<in> fst ` set results")
    case True
    then have "map_of results k' \<noteq> None"
      by (simp add: map_of_eq_None_iff)
    with True show ?thesis
      by (auto simp: kv Cons.IH split: option.splits)
  next
    case False
    then have "map_of results k' = None"
      by (simp add: map_of_eq_None_iff)
    with False show ?thesis
      by (auto simp: kv Cons.IH map_of_dict_set split: option.splits)
  qed
qed

lemma keys_copy_missing:
  "fst ` set (copy_missing rs results) = fst ` set results \<union> fst ` set rs"
proof (induction rs arbitrary: results)
  case Nil
  then show ?case by simp
next
  case (Cons kv rs)
  obtain k' v' where kv: "kv = (k', v')" by (cases kv)
  show ?case
    by (auto simp: kv Cons.IH keys_dict_set)
qed

lemma copy_missing_covered:
  "fst ` set rs \<subseteq> fst ` set results \<Longrightarrow> copy_missing rs results = results"
  by (induction rs arbitrary: results) (auto simp: rev_image_eqI)

lemma merge_defaults_keys:
  "merge_defaults rs ds results = Inr out \<Longrightarrow>
     fst ` set out = fst ` set results \<union> fst ` set ds"
proof (induction ds arbitrary: results)
  case Nil
  then show ?case by simp
next
  case (Cons kv ds)
  obtain k v where kv: "kv = (k, v)" by (cases kv)
  from Cons.prems obtain nv where
    nv: "new_val rs k v = Inr nv" and
    rest: "merge_defaults rs ds (dict_set results k nv) = Inr out"
    by (auto simp: kv split: sum.splits)
  from Cons.IH [OF rest] show ?case
    by (auto simp: kv keys_dict_set)
qed

lemma merge_defaults_other:
  "merge_defaults rs ds results = Inr out \<Longrightarrow> k \<notin> fst ` set ds \<Longrightarrow>
     map_of out k = map_of results k"
proof (induction ds arbitrary: results)
  case Nil
  then show ?case by simp
next
  case (Cons kv ds)
  obtain k' v' where kv: "kv = (k', v')" by (cases kv)
  from Cons.prems obtain nv where
    rest: "merge_defaults rs ds (dict_set results k' nv) = Inr out"
    by (auto simp: kv split: sum.splits)
  from Cons.prems have "k \<noteq> k'" "k \<notin> fst ` set ds"
    by (auto simp: kv)
  with Cons.IH [OF rest] show ?case
    by (simp add: map_of_dict_set)
qed

lemma merge_defaults_lookup:
  "merge_defaults rs ds results = Inr out \<Longrightarrow> distinct (map fst ds) \<Longrightarrow>
     (k, v) \<in> set ds \<Longrightarrow> \<exists>nv. new_val rs k v = Inr nv \<and> map_of out k = Some nv"
proof (induction ds arbitrary: results)
  case Nil
  then show ?case by simp
next
  case (Cons kv ds)
  obtain k' v' where kv: "kv = (k', v')" by (cases kv)
  from Cons.prems obtain nv where
    nv: "new_val rs k' v' = Inr nv" and
    rest: "merge_defaults rs ds (dict_set results k' nv) = Inr out"
    by (auto simp: kv split: sum.splits)
  show ?case
  proof (cases "(k, v) = (k', v')")
    case True
    from Cons.prems have "k' \<notin> fst ` set ds" by (simp add: kv)
    from merge_defaults_other [OF rest this]
    have "map_of out k' = Some nv" by (simp add: map_of_dict_set)
    with True nv show ?thesis by auto
  next
    case False
    with Cons.prems have "(k, v) \<in> set ds" "distinct (map fst ds)"
      by (auto simp: kv)
    with Cons.IH [OF rest] show ?thesis by blast
  qed
qed

lemma merge_results_lookup:
  assumes "merge_results (VDict rs) (VDict ds) = Inr out"
    and "distinct (map fst ds)" and "(k, v) \<in> set ds"
  shows "\<exists>kvs nv. out = VDict kvs \<and> new_val rs k v = Inr nv \<and> map_of kvs k = Some nv"
proof -
  from assms(1) obtain results where
    res: "merge_defaults rs ds [] = Inr results" and
    out: "out = VDict (copy_missing rs results)"
    by (auto split: sum.splits)
  from merge_defaults_lookup [OF res assms(2,3)] obtain nv where
    "new_val rs k v = Inr nv" "map_of results k = Some nv" by blast
  then show ?thesis
    by (simp add: out map_of_copy_missing)
qed

lemma merge_results_extra:
  assumes "merge_results (VDict rs) (VDict ds) = Inr (VDict out)"
    and "k \<notin> fst ` set ds"
  shows "map_of out k = map_of rs k"
proof -
  from assms(1) obtain results where
    res: "merge_defaults rs ds [] = Inr results" and
    out: "out = copy_missing rs results"
    by (auto split: sum.splits)
  from merge_defaults_other [OF res assms(2)] show ?thesis
    by (simp add: out map_of_copy_missing)
qed

lemma merge_results_keys:
  assumes "merge_results (VDict rs) (VDict ds) = Inr (VDict out)"
  shows "fst ` set out = fst ` set ds \<union> fst ` set rs"
proof -
  from assms(1) obtain results where
    res: "merge_defaults rs ds [] = Inr results" and
    out: "out = copy_missing rs results"
    by (auto split: sum.splits)
  from merge_defaults_keys [OF res] show ?thesis
    by (simp add: out keys_copy_missing)
qed

lemma merge_defaults_same:
  "\<forall>(k, v) \<in> set ds. new_val rs k v = Inr v \<Longrightarrow> distinct (map fst (results @ ds)) \<Longrightarrow>
     merge_defaults rs ds results = Inr (results @ ds)"
proof (induction ds arbitrary: results)
  case Nil
  then show ?case by simp
next
  case (Cons kv ds)
  obtain k v where kv: "kv = (k, v)" by (cases kv)
  from Cons.prems have nv: "new_val rs k v = Inr v" by (simp add: kv)
  from Cons.prems have fresh: "k \<notin> fst ` set results" by (auto simp: kv)
  have "merge_defaults rs ds (results @ [(k, v)]) = Inr ((results @ [(k, v)]) @ ds)"
    using Cons.prems by (intro Cons.IH) (auto simp: kv)
  then show ?case
    using nv by (simp add: kv dict_set_fresh [OF fresh] del: new_val.simps)
qed

lemma new_val_empty: "new_val [] k v = Inr v"
  by (simp add: dict_get_def)

lemma merge_results_empty:
  "distinct (map fst ds) \<Longrightarrow> merge_results (VDict []) (VDict ds) = Inr (VDict ds)"
  using merge_defaults_same [of ds "[]" "[]"]
  by (simp add: new_val_empty del: new_val.simps)

lemma merge_results_same_aux:
  "wf_val v \<Longrightarrow> is_dict v \<Longrightarrow> merge_results v v = Inr v"
proof (induction v)
  case (VDict kvs)
  have dist: "distinct (map fst kvs)" using VDict.prems by simp
  have "new_val kvs k v = Inr v" if kv: "(k, v) \<in> set kvs" for k v
  proof -
    from dist kv have get: "map_of kvs k = Some v" by simp
    have wf: "wf_val v" using VDict.prems kv by fastforce
    have "merge_results v v = Inr v" if "is_dict v"
      using VDict.IH [OF kv _ wf that] by simp
    then show ?thesis
      by (simp add: get dict_get_def)
  qed
  then have "merge_defaults kvs kvs [] = Inr kvs"
    using merge_defaults_same [of kvs kvs "[]"] dist by auto
  then show ?case
    by (simp add: copy_missing_covered)
qed simp_all


lemma merge_defaults_each:
  "merge_defaults rs ds results = Inr out \<Longrightarrow> (k, v) \<in> set ds \<Longrightarrow>
     \<exists>nv. new_val rs k v = Inr nv"
proof (induction ds arbitrary: results)
  case Nil
  then show ?case by simp
next
  case (Cons kv ds)
  obtain k' v' where kv: "kv = (k', v')" by (cases kv)
  from Cons.prems(1) obtain nv where
    nv: "new_val rs k' v' = Inr nv" and
    rest: "merge_defaults rs ds (dict_set results k' nv) = Inr out"
    by (auto simp: kv split: sum.splits)
  show ?case
  proof (cases "(k, v) = (k', v')")
    case True
    with nv show ?thesis by auto
  next
    case False
    with Cons.prems(2) have "(k, v) \<in> set ds" by (auto simp: kv)
    with Cons.IH [OF rest] show ?thesis by blast
  qed
qed

lemma merge_defaults_total:
  "(\<And>k v. (k, v) \<in> set ds \<Longrightarrow> \<exists>nv. new_val rs k v = Inr nv) \<Longrightarrow>
     \<exists>out. merge_defaults rs ds results = Inr out"
proof (induction ds arbitrary: results)
  case Nil
  then show ?case by simp
next
  case (Cons kv ds)
  obtain k v where kv: "kv = (k, v)" by (cases kv)
  from Cons.prems [of k v] obtain nv where nv: "new_val rs k v = Inr nv"
    by (auto simp: kv)
  have "\<exists>out. merge_defaults rs ds (dict_set results k nv) = Inr out"
    using Cons.prems by (intro Cons.IH) (auto simp: kv)
  with nv show ?case
    by (simp add: kv del: new_val.simps)
qed

lemma conforms_iff_merge_results:
  "conforms r d \<longleftrightarrow> (\<exists>out. merge_results r d = Inr out)"
proof (induction r d rule: conforms.induct)
  case (1 r d)
  have step: "(\<exists>nv. new_val r k v = Inr nv) \<longleftrightarrow>
      (is_dict v \<and> truthy v \<and> truthy (dict_get r k (VDict []))
         \<longrightarrow> conforms (dict_get r k (VDict [])) v)"
    if "(k, v) \<in> set d" for k v
    using "1.IH" [OF that] by (auto simp: Let_def)
  show ?case
  proof
    assume c: "conforms (VDict r) (VDict d)"
    have "\<exists>nv. new_val r k v = Inr nv" if kv: "(k, v) \<in> set d" for k v
      using c kv step [OF kv] by (simp del: new_val.simps) force
    from merge_defaults_total [of d r "[]", OF this] show "\<exists>out. merge_results (VDict r) (VDict d) = Inr out"
      by auto
  next
    assume "\<exists>out. merge_results (VDict r) (VDict d) = Inr out"
    then obtain results where res: "merge_defaults r d [] = Inr results"
      by (auto split: sum.splits)
    have "is_dict (snd kv) \<and> truthy (snd kv) \<and> truthy (dict_get r (fst kv) (VDict []))
        \<longrightarrow> conforms (dict_get r (fst kv) (VDict [])) (snd kv)" if "kv \<in> set d" for kv
    proof -
      from that have mem: "(fst kv, snd kv) \<in> set d" by simp
      from merge_defaults_each [OF res mem] step [OF mem] show ?thesis by blast
    qed
    then show "conforms (VDict r) (VDict d)" by simp
  qed
qed simp_all

section \<open>Claims about the normalizer\<close>

text \<open>
  C3. The claim: every key of the defaults whose raw value is absent or null gets the
  default value. The docstring of \<open>merge_results\<close> promises the same (\<open>defaults\<close> "also sets
  values of None", the result has "no None values (unless they come from defaults)").
  For a default that is not a mapping the code copies a raw \<open>None\<close>: merging
  \<open>{'a': None}\<close> with the defaults \<open>{'a': 5}\<close> gives \<open>{'a': None}\<close>, not \<open>{'a': 5}\<close>.
\<close>

theorem merge_results_null_scalar_kept:
  "merge_results (VDict [(''a'', VNone)]) (VDict [(''a'', VInt 5)]) = Inr (VDict [(''a'', VNone)])"
  by code_simp

text \<open>
  C4. For a key of the defaults whose default value is not a mapping, a merge that
  returns gives the raw value when the key is present in the raw mapping, also when
  that value is falsy, and the default value when the key is absent. Raw \<open>{'count': 0}\<close>
  against \<open>{'count': 5}\<close> gives \<open>{'count': 0}\<close>, and raw \<open>{}\<close> gives \<open>{'count': 5}\<close>.
\<close>

theorem merge_results_present_value_kept:
  "(merge_results (VDict R) (VDict D) = Inr (VDict out) \<longrightarrow> distinct (map fst D) \<longrightarrow>
      (k, v) \<in> set D \<longrightarrow> \<not> is_dict v \<longrightarrow>
        (\<forall>x. map_of R k = Some x \<longrightarrow> map_of out k = Some x) \<and>
        (map_of R k = None \<longrightarrow> map_of out k = Some v))
   \<and> merge_results (VDict [(''count'', VInt 0)]) (VDict [(''count'', VInt 5)])
        = Inr (VDict [(''count'', VInt 0)])
   \<and> merge_results (VDict []) (VDict [(''count'', VInt 5)])
        = Inr (VDict [(''count'', VInt 5)])"
proof (intro conjI impI)
  assume m: "merge_results (VDict R) (VDict D) = Inr (VDict out)"
    and d: "distinct (map fst D)" and kv: "(k, v) \<in> set D" and nd: "\<not> is_dict v"
  from merge_results_lookup [OF m d kv] obtain nv where
    nv: "new_val R k v = Inr nv" and out: "map_of out k = Some nv" by auto
  from nv nd have "nv = dict_get R k v" by simp
  with out show "\<forall>x. map_of R k = Some x \<longrightarrow> map_of out k = Some x"
    and "map_of R k = None \<Longrightarrow> map_of out k = Some v"
    by (simp_all add: dict_get_def)
next
  show "merge_results (VDict [(''count'', VInt 0)]) (VDict [(''count'', VInt 5)])
        = Inr (VDict [(''count'', VInt 0)])"
    by code_simp
  show "merge_results (VDict []) (VDict [(''count'', VInt 5)])
        = Inr (VDict [(''count'', VInt 5)])"
    by code_simp
qed

theorem merge_results_present_value_kept_witness:
  "merge_results (VDict [(''count'', VInt 0), (''n'', VNone)])
       (VDict [(''count'', VInt 5), (''m'', VInt 7)])
     = Inr (VDict [(''count'', VInt 0), (''m'', VInt 7), (''n'', VNone)])
   \<and> distinct (map fst [(''count'', VInt 5), (''m'', VInt 7)])
   \<and> (''count'', VInt 5) \<in> set [(''count'', VInt 5), (''m'', VInt 7)]
   \<and> \<not> is_dict (VInt 5)
   \<and> map_of [(''count'', VInt 0), (''n'', VNone)] ''count'' = Some (VInt 0)
   \<and> map_of [(''count'', VInt 0), (''m'', VInt 7), (''n'', VNone)] ''count'' = Some (VInt 0)"
proof -
  have m: "merge_results (VDict [(''count'', VInt 0), (''n'', VNone)])
       (VDict [(''count'', VInt 5), (''m'', VInt 7)])
     = Inr (VDict [(''count'', VInt 0), (''m'', VInt 7), (''n'', VNone)])"
    by code_simp
  show ?thesis
    using m merge_results_present_value_kept
      [of "[(''count'', VInt 0), (''n'', VNone)]" "[(''count'', VInt 5), (''m'', VInt 7)]"
          "[(''count'', VInt 0), (''m'', VInt 7), (''n'', VNone)]" "''count''" "VInt 5"]
    by simp
qed

text \<open>
  C7. The claim says that a raw value that is present but empty or falsy is used as it
  is. The code uses the default there: merging \<open>{'a': {}}\<close> with the defaults
  \<open>{'a': {'x': 1}}\<close> gives \<open>{'a': {'x': 1}}\<close>, not \<open>{'a': {}}\<close>.
\<close>

theorem merge_results_falsy_mapping_counterexample:
  "merge_results (VDict [(''a'', VDict [])]) (VDict [(''a'', VDict [(''x'', VInt 1)])])
     = Inr (VDict [(''a'', VDict [(''x'', VInt 1)])])
   \<and> merge_results (VDict [(''a'', VDict [])]) (VDict [(''a'', VDict [(''x'', VInt 1)])])
     \<noteq> Inr (VDict [(''a'', VDict [])])"
  by code_simp

text \<open>
  C7, as amended. For a key \<open>k\<close> of the defaults whose default value \<open>D[k]\<close> is a mapping,
  a merge that returns gives: \<open>D[k]\<close> when \<open>k\<close> is absent from the raw mapping or its raw
  value is falsy (an empty mapping, \<open>None\<close>, zero, an empty string); the raw value as it is
  when it is truthy and \<open>D[k]\<close> is empty; and the recursive merge of the raw value with
  \<open>D[k]\<close> when both are non-empty.
\<close>

theorem merge_results_mapping_default:
  "merge_results (VDict R) (VDict D) = Inr (VDict out) \<longrightarrow> distinct (map fst D) \<longrightarrow>
     (k, VDict dk) \<in> set D \<longrightarrow>
       (map_of R k = None \<longrightarrow> map_of out k = Some (VDict dk)) \<and>
       (\<forall>rk. map_of R k = Some rk \<longrightarrow> \<not> truthy rk \<longrightarrow> map_of out k = Some (VDict dk)) \<and>
       (\<forall>rk. map_of R k = Some rk \<longrightarrow> truthy rk \<longrightarrow> dk = [] \<longrightarrow> map_of out k = Some rk) \<and>
       (\<forall>rk. map_of R k = Some rk \<longrightarrow> truthy rk \<longrightarrow> dk \<noteq> [] \<longrightarrow>
          (\<exists>m. merge_results rk (VDict dk) = Inr m \<and> map_of out k = Some m))"
proof (intro impI)
  assume m: "merge_results (VDict R) (VDict D) = Inr (VDict out)"
    and d: "distinct (map fst D)" and kv: "(k, VDict dk) \<in> set D"
  from merge_results_lookup [OF m d kv] obtain nv where
    nv: "new_val R k (VDict dk) = Inr nv" and out: "map_of out k = Some nv" by auto
  have absent: "map_of out k = Some (VDict dk)" if "map_of R k = None"
    using nv out that by (simp add: dict_get_def)
  have falsy: "map_of out k = Some (VDict dk)" if "map_of R k = Some rk" "\<not> truthy rk" for rk
    using nv out that by (simp add: dict_get_def)
  have asis: "map_of out k = Some rk" if "map_of R k = Some rk" "truthy rk" "dk = []" for rk
    using nv out that by (simp add: dict_get_def)
  have merged: "\<exists>m. merge_results rk (VDict dk) = Inr m \<and> map_of out k = Some m"
    if "map_of R k = Some rk" "truthy rk" "dk \<noteq> []" for rk
    using nv out that by (simp add: dict_get_def)
  from absent falsy asis merged
  show "(map_of R k = None \<longrightarrow> map_of out k = Some (VDict dk)) \<and>
       (\<forall>rk. map_of R k = Some rk \<longrightarrow> \<not> truthy rk \<longrightarrow> map_of out k = Some (VDict dk)) \<and>
       (\<forall>rk. map_of R k = Some rk \<longrightarrow> truthy rk \<longrightarrow> dk = [] \<longrightarrow> map_of out k = Some rk) \<and>
       (\<forall>rk. map_of R k = Some rk \<longrightarrow> truthy rk \<longrightarrow> dk \<noteq> [] \<longrightarrow>
          (\<exists>m. merge_results rk (VDict dk) = Inr m \<and> map_of out k = Some m))"
    by blast
qed

theorem merge_results_mapping_default_witness:
  "merge_results (VDict [(''keys'', VDict [(''sid'', VUni ''s1'')]), (''vars'', VNone)])
       (VDict [(''keys'', VDict [(''sid'', VStr []), (''email'', VStr [])]),
               (''vars'', VDict [(''x'', VInt 1)]), (''lists'', VDict [])])
     = Inr (VDict [(''keys'', VDict [(''sid'', VUni ''s1''), (''email'', VStr [])]),
                   (''vars'', VDict [(''x'', VInt 1)]), (''lists'', VDict [])])
   \<and> distinct (map fst [(''keys'', VDict [(''sid'', VStr []), (''email'', VStr [])]),
               (''vars'', VDict [(''x'', VInt 1)]), (''lists'', VDict [])])
   \<and> (''vars'', VDict [(''x'', VInt 1)])
        \<in> set [(''keys'', VDict [(''sid'', VStr []), (''email'', VStr [])]),
               (''vars'', VDict [(''x'', VInt 1)]), (''lists'', VDict [])]
   \<and> map_of [(''keys'', VDict [(''sid'', VUni ''s1'')]), (''vars'', VNone)] ''vars'' = Some VNone
   \<and> \<not> truthy VNone
   \<and> map_of [(''keys'', VDict [(''sid'', VUni ''s1''), (''email'', VStr [])]),
             (''vars'', VDict [(''x'', VInt 1)]), (''lists'', VDict [])] ''vars''
       = Some (VDict [(''x'', VInt 1)])"
proof -
  have m: "merge_results (VDict [(''keys'', VDict [(''sid'', VUni ''s1'')]), (''vars'', VNone)])
       (VDict [(''keys'', VDict [(''sid'', VStr []), (''email'', VStr [])]),
               (''vars'', VDict [(''x'', VInt 1)]), (''lists'', VDict [])])
     = Inr (VDict [(''keys'', VDict [(''sid'', VUni ''s1''), (''email'', VStr [])]),
                   (''vars'', VDict [(''x'', VInt 1)]), (''lists'', VDict [])])"
    by code_simp
  show ?thesis
    using m merge_results_mapping_default
      [of "[(''keys'', VDict [(''sid'', VUni ''s1'')]), (''vars'', VNone)]"
          "[(''keys'', VDict [(''sid'', VStr []), (''email'', VStr [])]),
               (''vars'', VDict [(''x'', VInt 1)]), (''lists'', VDict [])]"
          "[(''keys'', VDict [(''sid'', VUni ''s1''), (''email'', VStr [])]),
                   (''vars'', VDict [(''x'', VInt 1)]), (''lists'', VDict [])]"
          "''vars''" "[(''x'', VInt 1)]"]
    by simp
qed

text \<open>
  C8. Merging a mapping with itself as the defaults gives the mapping back, and merging
  the empty mapping with defaults \<open>D\<close> gives \<open>D\<close>. The hypotheses say that the values are
  Python dicts: no key occurs twice.
\<close>

theorem merge_results_roundtrip:
  "(wf_val (VDict R) \<longrightarrow> merge_results (VDict R) (VDict R) = Inr (VDict R)) \<and>
   (distinct (map fst D) \<longrightarrow> merge_results (VDict []) (VDict D) = Inr (VDict D))"
  using merge_results_same_aux [of "VDict R"] merge_results_empty [of D] by simp

theorem merge_results_roundtrip_witness:
  "wf_val (VDict [(''keys'', VDict [(''sid'', VUni ''x''), (''n'', VInt 0)]), (''vars'', VDict []),
                  (''tags'', VList [VDict [(''a'', VNone)]]), (''z'', VNone)])
   \<and> merge_results
        (VDict [(''keys'', VDict [(''sid'', VUni ''x''), (''n'', VInt 0)]), (''vars'', VDict []),
                (''tags'', VList [VDict [(''a'', VNone)]]), (''z'', VNone)])
        (VDict [(''keys'', VDict [(''sid'', VUni ''x''), (''n'', VInt 0)]), (''vars'', VDict []),
                (''tags'', VList [VDict [(''a'', VNone)]]), (''z'', VNone)])
      = Inr (VDict [(''keys'', VDict [(''sid'', VUni ''x''), (''n'', VInt 0)]), (''vars'', VDict []),
                (''tags'', VList [VDict [(''a'', VNone)]]), (''z'', VNone)])
   \<and> distinct (map fst [(''count'', VInt 5), (''sub'', VDict [(''x'', VInt 1)])])
   \<and> merge_results (VDict []) (VDict [(''count'', VInt 5), (''sub'', VDict [(''x'', VInt 1)])])
      = Inr (VDict [(''count'', VInt 5), (''sub'', VDict [(''x'', VInt 1)])])"
  using merge_results_roundtrip
    [of "[(''keys'', VDict [(''sid'', VUni ''x''), (''n'', VInt 0)]), (''vars'', VDict []),
          (''tags'', VList [VDict [(''a'', VNone)]]), (''z'', VNone)]"
        "[(''count'', VInt 5), (''sub'', VDict [(''x'', VInt 1)])]"]
  by simp

section \<open>Claims about the safe user lookup\<close>

lemma user_dict_conforms:
  assumes "case map_of R ''keys'' of None \<Rightarrow> True | Some kv \<Rightarrow> is_dict kv \<or> \<not> truthy kv"
  shows "conforms (VDict R) user_dict"
proof -
  have "conforms (dict_get R ''keys'' (VDict []))
          (VDict [(''sid'', VStr []), (''cookie'', VStr []), (''email'', VStr [])])"
    if "truthy (dict_get R ''keys'' (VDict []))"
  proof (cases "map_of R ''keys''")
    case None
    with that show ?thesis by (simp add: dict_get_def)
  next
    case (Some kv)
    with assms that obtain sub where "kv = VDict sub"
      by (cases kv) (auto simp: dict_get_def)
    with Some show ?thesis by (simp add: dict_get_def)
  qed
  then show ?thesis
    by (simp add: user_dict_def)
qed

lemma user_dict_entries:
  "user_dict = VDict ud \<Longrightarrow> distinct (map fst ud) \<and> (''vars'', VDict []) \<in> set ud"
  by (auto simp: user_dict_def)

text \<open>
  C9. For a successful vendor response whose body is a mapping (with the \<open>keys\<close> entry,
  when present and truthy, a mapping, as the vendor sends it), the safe lookup returns
  the response with a body in which \<open>vars\<close> is the default empty mapping, both when the
  body has no \<open>vars\<close> key and when it maps \<open>vars\<close> to null. When the body is empty or
  absent (falsy), the response is returned with the default template as its body.
\<close>

theorem get_user_vars_default:
  "(is_ok (vendor_get_user idvalue options) \<longrightarrow>
    json (vendor_get_user idvalue options) = VDict R \<longrightarrow>
    (map_of R ''vars'' = None \<or> map_of R ''vars'' = Some VNone) \<longrightarrow>
    (case map_of R ''keys'' of None \<Rightarrow> True | Some kv \<Rightarrow> is_dict kv \<or> \<not> truthy kv) \<longrightarrow>
      (\<exists>out. get_user vendor_get_user idvalue options
                = Inr ((vendor_get_user idvalue options)\<lparr>json := VDict out\<rparr>)
             \<and> map_of out ''vars'' = Some (VDict [])))
   \<and> (is_ok (vendor_get_user idvalue options) \<longrightarrow>
       \<not> truthy (json (vendor_get_user idvalue options)) \<longrightarrow>
         get_user vendor_get_user idvalue options
           = Inr ((vendor_get_user idvalue options)\<lparr>json := user_dict\<rparr>))"
proof (intro conjI impI)
  let ?r = "vendor_get_user idvalue options"
  assume ok: "is_ok ?r" and js: "json ?r = VDict R"
    and vars: "map_of R ''vars'' = None \<or> map_of R ''vars'' = Some VNone"
    and keys: "case map_of R ''keys'' of None \<Rightarrow> True | Some kv \<Rightarrow> is_dict kv \<or> \<not> truthy kv"
  obtain ud where ud: "user_dict = VDict ud" by (simp add: user_dict_def)
  show "\<exists>out. get_user vendor_get_user idvalue options = Inr (?r\<lparr>json := VDict out\<rparr>)
             \<and> map_of out ''vars'' = Some (VDict [])"
  proof (cases "R = []")
    case True
    have "map_of ud ''vars'' = Some (VDict [])"
      using ud by (auto simp: user_dict_def)
    moreover have "get_user vendor_get_user idvalue options = Inr (?r\<lparr>json := VDict ud\<rparr>)"
      using True ok js ud by (simp add: get_user_def create_response_def)
    ultimately show ?thesis by blast
  next
    case False
    from user_dict_conforms [OF keys] obtain out where
      m: "merge_results (VDict R) (VDict ud) = Inr out"
      by (auto simp: conforms_iff_merge_results ud)
    from user_dict_entries [OF ud] have d: "distinct (map fst ud)"
      and mem: "(''vars'', VDict []) \<in> set ud" by simp_all
    from merge_results_lookup [OF m d mem] obtain kvs nv where
      out: "out = VDict kvs" and nv: "new_val R ''vars'' (VDict []) = Inr nv"
      and look: "map_of kvs ''vars'' = Some nv" by blast
    from vars nv have "nv = VDict []"
      by (auto simp: dict_get_def)
    with look have "map_of kvs ''vars'' = Some (VDict [])" by simp
    moreover have "get_user vendor_get_user idvalue options = Inr (?r\<lparr>json := VDict kvs\<rparr>)"
      using out m False ok js ud by (simp add: get_user_def create_response_def)
    ultimately show ?thesis by blast
  qed
next
  assume "is_ok (vendor_get_user idvalue options)"
    and "\<not> truthy (json (vendor_get_user idvalue options))"
  then show "get_user vendor_get_user idvalue options
           = Inr ((vendor_get_user idvalue options)\<lparr>json := user_dict\<rparr>)"
    by (simp add: get_user_def create_response_def)
qed

theorem get_user_vars_default_witness:
  "is_ok (demo_get_user (VDict [(''keys'', VDict [(''email'', VUni ''a@b.c'')]), (''vars'', VNone)])
            ''a@b.c'' ())
   \<and> json (demo_get_user (VDict [(''keys'', VDict [(''email'', VUni ''a@b.c'')]), (''vars'', VNone)])
            ''a@b.c'' ())
       = VDict [(''keys'', VDict [(''email'', VUni ''a@b.c'')]), (''vars'', VNone)]
   \<and> map_of [(''keys'', VDict [(''email'', VUni ''a@b.c'')]), (''vars'', VNone)] ''vars''
       = Some VNone
   \<and> (\<exists>out. get_user
               (demo_get_user (VDict [(''keys'', VDict [(''email'', VUni ''a@b.c'')]), (''vars'', VNone)]))
               ''a@b.c'' ()
         = Inr ((demo_response (VDict [(''keys'', VDict [(''email'', VUni ''a@b.c'')]), (''vars'', VNone)]))
                  \<lparr>json := VDict out\<rparr>)
        \<and> map_of out ''vars'' = Some (VDict []))
   \<and> \<not> truthy (json (demo_get_user VNone ''a@b.c'' ()))
   \<and> get_user (demo_get_user VNone) ''a@b.c'' () = Inr ((demo_response VNone)\<lparr>json := user_dict\<rparr>)"
  using get_user_vars_default
      [of "demo_get_user (VDict [(''keys'', VDict [(''email'', VUni ''a@b.c'')]), (''vars'', VNone)])"
          "''a@b.c''" "()" "[(''keys'', VDict [(''email'', VUni ''a@b.c'')]), (''vars'', VNone)]"]
    get_user_vars_default [of "demo_get_user VNone" "''a@b.c''" "()" "[]"]
  by (simp add: demo_get_user_def demo_response_def)

section \<open>Properties of the classifier\<close>

lemma dict_get_field:
  "field_ok P (map_of d k) \<Longrightarrow> P dflt \<Longrightarrow> P (dict_get d k dflt)"
  by (cases "map_of d k") (simp_all add: dict_get_def)

lemma py_in_total: "is_list_val v \<or> is_text v \<Longrightarrow> \<exists>b. py_in x v = Inr b"
  by (cases v) simp_all

lemma py_startswith_total: "is_text v \<Longrightarrow> py_startswith v p = Inr (startswith (text_val v) p)"
  by (cases v) simp_all

lemma py_endswith_total: "is_text v \<Longrightarrow> py_endswith v p = Inr (endswith (text_val v) p)"
  by (cases v) simp_all

lemma py_lower_total: "is_text v \<Longrightarrow> \<exists>l. py_lower v = Inr l \<and> is_text l"
  by (cases v) simp_all

lemma py_encode_total: "is_encodable v \<Longrightarrow> \<exists>s. py_encode v = Inr (VStr s)"
  by (cases v) simp_all

lemma re_sub_total:
  "is_text v \<Longrightarrow> re_sub m n v = Inr (with_text v (sub_at_end m n (text_val v)))"
  by (cases v) simp_all

lemma is_text_with_text: "is_text v \<Longrightarrow> is_text (with_text v s)"
  by (cases v) simp_all

lemma re_match_dive_total: "is_text v \<Longrightarrow> re_match_dive v = Inr (dive_re_match (text_val v))"
  by (cases v) simp_all

lemma infer_dive_email_type_total:
  assumes "campaign_ok c"
  shows "\<exists>t. infer_dive_email_type c = Inr t \<and>
           t \<in> {Blast, WelcomeSeries, Newsletter, Weekender, BreakingNews, Unknown}"
proof -
  from assms obtain d where c: "c = VDict d" by (cases c) simp_all
  define labels where "labels = dict_get d ''labels'' (VList [])"
  define name where "name = dict_get d ''name'' (VStr [])"
  define lst where "lst = dict_get d ''list'' (VStr [])"
  define subj where "subj = dict_get d ''subject'' (VStr [])"
  have labels: "is_list_val labels" and name: "is_text name" and lst: "is_text lst"
    and subj: "is_encodable subj"
    using assms unfolding c labels_def name_def lst_def subj_def
    by (simp_all add: dict_get_field [of is_list_val] dict_get_field [of is_text]
        dict_get_field [of is_encodable] is_ascii_def)
  from py_encode_total [OF subj] obtain s where s: "py_encode subj = Inr (VStr s)" by blast
  from py_lower_total [OF lst] obtain l where l: "py_lower lst = Inr l" "is_text l" by blast
  obtain b1 b2 b3 b4 where
    b: "py_in ''Blast'' labels = Inr b1" "py_in ''-blast-'' name = Inr b2"
       "py_in ''Welcome Series'' labels = Inr b3" "py_in ''newsletter'' labels = Inr b4"
    using py_in_total [of labels] py_in_total [of name] labels name by metis
  show ?thesis
    unfolding infer_dive_email_type_def c
    by (simp add: bind_def py_or_def labels_def [symmetric] name_def [symmetric]
        lst_def [symmetric] subj_def [symmetric] s l b
        py_startswith_total [OF name] py_endswith_total [OF lst] py_endswith_total [OF l(2)])
qed

lemma infer_dive_brand_total:
  assumes "campaign_ok c"
  shows "\<exists>b. infer_dive_brand c = Inr b \<and> (b = VNone \<or> is_text b)"
proof -
  from assms obtain d where c: "c = VDict d" by (cases c) simp_all
  define lst where "lst = dict_get d ''list'' (VStr [])"
  have lst: "is_text lst"
    using assms unfolding c lst_def by (simp add: dict_get_field [of is_text])
  from py_lower_total [OF lst] obtain l where l: "py_lower lst = Inr l" "is_text l" by blast
  show ?thesis
    unfolding infer_dive_brand_def c
    by (simp add: bind_def py_or_def lst_def [symmetric] l lst
        py_endswith_total [OF lst] py_endswith_total [OF l(2)] re_sub_total [OF lst]
        re_match_dive_total [OF lst] is_text_with_text)
qed


lemma endswith_append:
  "length p \<le> length ys \<Longrightarrow> endswith (xs @ ys) p = endswith ys p"
  by (simp add: endswith_def)

lemma endswith_last:
  assumes "endswith s p" "p \<noteq> []"
  shows "s \<noteq> [] \<and> last s = last p"
proof -
  from assms have len: "length p \<le> length s" and d: "drop (length s - length p) s = p"
    by (simp_all add: endswith_def)
  from len assms(2) have ne: "s \<noteq> []" by auto
  have "last s = last (drop (length s - length p) s)"
    using len assms(2) by (intro last_drop [symmetric]) (cases p, simp_all)
  with d ne show ?thesis by simp
qed

lemma endswith_map_last:
  assumes "endswith (map f s) p" "p \<noteq> []"
  shows "s \<noteq> [] \<and> f (last s) = last p"
proof -
  from endswith_last [OF assms] have "map f s \<noteq> []" "last (map f s) = last p" by simp_all
  then show ?thesis by (simp add: last_map)
qed

lemma lower_blast_list_suffix:
  assumes "blast_list_re sfx"
  shows "map unicode_lower_char sfx = '' blast list''"
    and "map ascii_lower_char sfx = '' blast list''" and "length sfx = 11"
proof -
  have u: "map unicode_lower_char '' Blast List'' = '' blast list''"
    "map unicode_lower_char '' Blast list'' = '' blast list''"
    "map unicode_lower_char '' blast List'' = '' blast list''"
    "map unicode_lower_char '' blast list'' = '' blast list''"
    by code_simp+
  have a: "map ascii_lower_char '' Blast List'' = '' blast list''"
    "map ascii_lower_char '' Blast list'' = '' blast list''"
    "map ascii_lower_char '' blast List'' = '' blast list''"
    "map ascii_lower_char '' blast list'' = '' blast list''"
    by code_simp+
  from assms u show "map unicode_lower_char sfx = '' blast list''"
    unfolding blast_list_re_def by auto
  from assms a show "map ascii_lower_char sfx = '' blast list''"
    unfolding blast_list_re_def by auto
  from assms show "length sfx = 11"
    unfolding blast_list_re_def by auto
qed

lemma lower_char_fixed:
  "unicode_lower_char (CHR 0x0A) = CHR 0x0A" "ascii_lower_char (CHR 0x0A) = CHR 0x0A"
  "unicode_lower_char CHR ''r'' = CHR ''r''" "ascii_lower_char CHR ''r'' = CHR ''r''"
  by code_simp+

lemma py_lower_text:
  "py_lower v = Inr lo \<Longrightarrow>
     is_text v \<and> is_text lo \<and> (\<exists>f. text_val lo = map f (text_val v) \<and> f (CHR 0x0A) = CHR 0x0A
        \<and> f CHR ''r'' = CHR ''r''
        \<and> (\<forall>sfx. blast_list_re sfx \<longrightarrow> map f sfx = '' blast list''))"
proof (cases v)
  case (VStr s)
  assume "py_lower v = Inr lo"
  with VStr show ?thesis
    by (auto intro!: exI [of _ ascii_lower_char] simp: lower_char_fixed lower_blast_list_suffix)
next
  case (VUni s)
  assume "py_lower v = Inr lo"
  with VUni show ?thesis
    by (auto intro!: exI [of _ unicode_lower_char] simp: lower_char_fixed lower_blast_list_suffix)
qed simp_all

lemma blast_list_guard:
  assumes "is_text lst" "text_val lst = p @ sfx" "blast_list_re sfx"
  shows "bind (py_lower lst) (\<lambda>l. py_endswith l ''blast list'') = Inr True"
proof -
  from py_lower_total [OF assms(1)] obtain lo where lo: "py_lower lst = Inr lo" by blast
  from py_lower_text [OF lo] obtain f where
    t: "is_text lo" and f: "text_val lo = map f (text_val lst)"
    and s: "map f sfx = '' blast list''" using assms(3) by blast
  have "endswith (text_val lo) ''blast list''"
    by (simp add: f assms(2) s endswith_append) (simp add: endswith_def)
  then show ?thesis
    by (simp add: bind_def lo py_endswith_total [OF t])
qed

lemma sub_at_end_strip:
  assumes "blast_list_re sfx"
  shows "sub_at_end blast_list_re 11 (p @ sfx) = p"
  using assms lower_blast_list_suffix(3) [OF assms] by (simp add: sub_at_end_def)

lemma sub_at_end_unchanged:
  assumes "endswith (map f l) ''blast list''" "f (CHR 0x0A) = CHR 0x0A"
    and "\<not> (\<exists>p sfx. l = p @ sfx \<and> blast_list_re sfx)"
  shows "sub_at_end blast_list_re 11 l = l"
proof -
  have first: "\<not> blast_list_re (drop (length l - 11) l)"
  proof
    assume "blast_list_re (drop (length l - 11) l)"
    moreover have "l = take (length l - 11) l @ drop (length l - 11) l" by simp
    ultimately show False using assms(3) by blast
  qed
  have second: "drop (length l - 1) l \<noteq> [CHR 0x0A]"
  proof
    assume d: "drop (length l - 1) l = [CHR 0x0A]"
    from endswith_map_last [OF assms(1)] have ne: "l \<noteq> []" and lt: "f (last l) = CHR ''t''"
      by simp_all
    have "last l = last (drop (length l - 1) l)"
      using ne by (intro last_drop [symmetric]) (cases l, simp_all)
    with d have "last l = CHR 0x0A" by simp
    with lt assms(2) show False by simp
  qed
  from first second show ?thesis
    by (simp add: sub_at_end_def)
qed

lemma with_text_same: "is_text v \<Longrightarrow> with_text v (text_val v) = v"
  by (cases v) simp_all

lemma infer_dive_brand_blast_list:
  assumes "dict_get d ''list'' (VStr []) = lst" "py_lower lst = Inr lo"
    and "endswith (text_val lo) ''blast list''"
  shows "infer_dive_brand (VDict d)
           = Inr (with_text lst (sub_at_end blast_list_re 11 (text_val lst)))"
proof -
  from py_lower_text [OF assms(2)] have t: "is_text lst" "is_text lo" by simp_all
  show ?thesis
    by (simp add: infer_dive_brand_def bind_def assms py_endswith_total [OF t(2)]
        re_sub_total [OF t(1)])
qed

lemma not_weekender:
  assumes "py_lower lst = Inr lo" "endswith (text_val lo) ''blast list''"
  shows "\<not> endswith (text_val lst) ''Weekender''"
proof
  assume w: "endswith (text_val lst) ''Weekender''"
  from py_lower_text [OF assms(1)] obtain f where
    f: "text_val lo = map f (text_val lst)" and r: "f CHR ''r'' = CHR ''r''" by blast
  from endswith_last [OF w] have "last (text_val lst) = CHR ''r''" by simp
  moreover from endswith_map_last [of f "text_val lst" "''blast list''"] assms(2) f
  have "f (last (text_val lst)) = CHR ''t''" by simp
  ultimately show False using r by simp
qed


section \<open>Claims about the classifier\<close>

text \<open>
  C2. The claim says that the brand is the list name without its trailing
  \<open>" blast list"\<close> under any capitalization. The rule fires on the lower-cased list
  name, but the substitution removes only \<open>' [Bb]last [Ll]ist'\<close>: the list
  \<open>"FOO BLAST LIST"\<close> has type \<open>Blast\<close> and keeps the brand \<open>"FOO BLAST LIST"\<close>.
\<close>

theorem blast_list_any_capitalization_counterexample:
  "infer_dive_email_type (VDict [(''list'', VUni ''FOO BLAST LIST'')]) = Inr Blast
   \<and> infer_dive_brand (VDict [(''list'', VUni ''FOO BLAST LIST'')]) = Inr (VUni ''FOO BLAST LIST'')
   \<and> infer_dive_brand (VDict [(''list'', VUni ''FOO BLAST LIST'')]) \<noteq> Inr (VUni ''FOO'')"
  by code_simp

text \<open>
  C2, as amended. Take a campaign record with typed fields that matches none of the
  rules 1 to 4 (no label equal to \<open>Blast\<close>, \<open>Welcome Series\<close> or \<open>newsletter\<close>; a name
  without \<open>-blast-\<close> that starts neither with \<open>Newsletter Weekly Roundup\<close> nor with
  \<open>Issue: \<close>; a list name ending in \<open>Weekender\<close> is excluded by the next condition) and
  whose list name, lower-cased, ends with \<open>blast list\<close>. Its type is \<open>Blast\<close>. When the
  list name ends with \<open>" blast list"\<close>, each of the two words written with a small or a
  capital first letter, the brand is the list name without that ending; for any other
  spelling the brand is the list name unchanged. The list
  \<open>"Utility Dive: Solar blast list"\<close> gives the brand \<open>"Utility Dive: Solar"\<close>.
\<close>

theorem blast_list_rule:
  "campaign_ok (VDict d) \<longrightarrow>
   dict_get d ''labels'' (VList []) = VList ls \<longrightarrow>
   (\<forall>e \<in> set ls. \<not> py_eq_str e ''Blast'' \<and> \<not> py_eq_str e ''Welcome Series''
      \<and> \<not> py_eq_str e ''newsletter'') \<longrightarrow>
   text_val (dict_get d ''name'' (VStr [])) = n \<longrightarrow>
   \<not> str_contains ''-blast-'' n \<longrightarrow> \<not> startswith n ''Newsletter Weekly Roundup'' \<longrightarrow>
   \<not> startswith n ''Issue: '' \<longrightarrow>
   dict_get d ''list'' (VStr []) = lst \<longrightarrow>
   py_lower lst = Inr lo \<longrightarrow> endswith (text_val lo) ''blast list'' \<longrightarrow>
     infer_dive_email_type (VDict d) = Inr Blast \<and>
     (\<forall>p sfx. text_val lst = p @ sfx \<and> blast_list_re sfx \<longrightarrow>
        infer_dive_brand (VDict d) = Inr (with_text lst p)) \<and>
     ((\<forall>p sfx. text_val lst = p @ sfx \<longrightarrow> \<not> blast_list_re sfx) \<longrightarrow>
        infer_dive_brand (VDict d) = Inr lst)"
proof (intro impI)
  assume ok: "campaign_ok (VDict d)"
    and labels: "dict_get d ''labels'' (VList []) = VList ls"
    and ls: "\<forall>e \<in> set ls. \<not> py_eq_str e ''Blast'' \<and> \<not> py_eq_str e ''Welcome Series''
      \<and> \<not> py_eq_str e ''newsletter''"
    and n: "text_val (dict_get d ''name'' (VStr [])) = n"
    and n1: "\<not> str_contains ''-blast-'' n" and n2: "\<not> startswith n ''Newsletter Weekly Roundup''"
    and n3: "\<not> startswith n ''Issue: ''"
    and lst: "dict_get d ''list'' (VStr []) = lst"
    and lo: "py_lower lst = Inr lo" and e: "endswith (text_val lo) ''blast list''"
  define name where "name = dict_get d ''name'' (VStr [])"
  define subj where "subj = dict_get d ''subject'' (VStr [])"
  have name: "is_text name" and subj: "is_encodable subj"
    using ok unfolding name_def subj_def
    by (simp_all add: dict_get_field [of is_text] dict_get_field [of is_encodable] is_ascii_def)
  from py_lower_text [OF lo] have t: "is_text lst" "is_text lo" by simp_all
  from py_encode_total [OF subj] obtain s where s: "py_encode subj = Inr (VStr s)" by blast
  have inname: "py_in ''-blast-'' name = Inr False"
    using name n n1 unfolding name_def by (cases "dict_get d ''name'' (VStr [])") simp_all
  have tn: "text_val name = n" using n by (simp add: name_def)
  have ty: "infer_dive_email_type (VDict d) = Inr Blast"
    unfolding infer_dive_email_type_def
    using ls n2 n3 not_weekender [OF lo e]
    by (simp add: bind_def py_or_def labels lst name_def [symmetric] subj_def [symmetric] s lo
        inname tn py_startswith_total [OF name] py_endswith_total [OF t(1)]
        py_endswith_total [OF t(2)] e)
  have brand: "infer_dive_brand (VDict d)
           = Inr (with_text lst (sub_at_end blast_list_re 11 (text_val lst)))"
    by (rule infer_dive_brand_blast_list [OF lst lo e])
  have strip: "infer_dive_brand (VDict d) = Inr (with_text lst p)"
    if "text_val lst = p @ sfx \<and> blast_list_re sfx" for p sfx
    using brand that by (simp add: sub_at_end_strip)
  have keep: "infer_dive_brand (VDict d) = Inr lst"
    if no: "\<forall>p sfx. text_val lst = p @ sfx \<longrightarrow> \<not> blast_list_re sfx"
  proof -
    from py_lower_text [OF lo] obtain f where
      f: "text_val lo = map f (text_val lst)" and nl: "f (CHR 0x0A) = CHR 0x0A" by blast
    have "sub_at_end blast_list_re 11 (text_val lst) = text_val lst"
      using e no by (intro sub_at_end_unchanged [of f]) (auto simp: f nl)
    with brand show ?thesis by (simp add: with_text_same [OF t(1)])
  qed
  from ty strip keep
  show "infer_dive_email_type (VDict d) = Inr Blast \<and>
     (\<forall>p sfx. text_val lst = p @ sfx \<and> blast_list_re sfx \<longrightarrow>
        infer_dive_brand (VDict d) = Inr (with_text lst p)) \<and>
     ((\<forall>p sfx. text_val lst = p @ sfx \<longrightarrow> \<not> blast_list_re sfx) \<longrightarrow>
        infer_dive_brand (VDict d) = Inr lst)"
    by blast
qed

theorem blast_list_rule_witness:
  "campaign_ok (VDict [(''list'', VUni ''Utility Dive: Solar blast list'')])
   \<and> dict_get [(''list'', VUni ''Utility Dive: Solar blast list'')] ''labels'' (VList []) = VList []
   \<and> text_val (dict_get [(''list'', VUni ''Utility Dive: Solar blast list'')] ''name'' (VStr [])) = []
   \<and> \<not> str_contains ''-blast-'' [] \<and> \<not> startswith [] ''Newsletter Weekly Roundup''
   \<and> \<not> startswith [] ''Issue: ''
   \<and> dict_get [(''list'', VUni ''Utility Dive: Solar blast list'')] ''list'' (VStr [])
       = VUni ''Utility Dive: Solar blast list''
   \<and> py_lower (VUni ''Utility Dive: Solar blast list'') = Inr (VUni ''utility dive: solar blast list'')
   \<and> endswith (text_val (VUni ''utility dive: solar blast list'')) ''blast list''
   \<and> blast_list_re '' blast list''
   \<and> infer_dive_email_type (VDict [(''list'', VUni ''Utility Dive: Solar blast list'')]) = Inr Blast
   \<and> infer_dive_brand (VDict [(''list'', VUni ''Utility Dive: Solar blast list'')])
       = Inr (VUni ''Utility Dive: Solar'')"
proof -
  let ?d = "[(''list'', VUni ''Utility Dive: Solar blast list'')]"
  have h1: "campaign_ok (VDict ?d)" by simp
  have h2: "dict_get ?d ''labels'' (VList []) = VList []" by (simp add: dict_get_def)
  have h3: "\<forall>e \<in> set []. \<not> py_eq_str e ''Blast'' \<and> \<not> py_eq_str e ''Welcome Series''
      \<and> \<not> py_eq_str e ''newsletter''" by simp
  have h4: "text_val (dict_get ?d ''name'' (VStr [])) = []" by (simp add: dict_get_def)
  have h5: "\<not> str_contains ''-blast-'' []" "\<not> startswith [] ''Newsletter Weekly Roundup''"
    "\<not> startswith [] ''Issue: ''" by (simp_all add: startswith_def)
  have h6: "dict_get ?d ''list'' (VStr []) = VUni ''Utility Dive: Solar blast list''"
    by (simp add: dict_get_def)
  have h7: "py_lower (VUni ''Utility Dive: Solar blast list'')
      = Inr (VUni ''utility dive: solar blast list'')" by code_simp
  have h8: "endswith (text_val (VUni ''utility dive: solar blast list'')) ''blast list''"
    by (simp add: endswith_def)
  have h9: "blast_list_re '' blast list''" by (simp add: blast_list_re_def)
  have h10: "text_val (VUni ''Utility Dive: Solar blast list'')
      = ''Utility Dive: Solar'' @ '' blast list''" by simp
  from blast_list_rule [of ?d "[]" "[]" "VUni ''Utility Dive: Solar blast list''"
      "VUni ''utility dive: solar blast list''"] h1 h2 h3 h4 h5 h6 h7 h8
  have r: "infer_dive_email_type (VDict ?d) = Inr Blast \<and>
     (\<forall>p sfx. text_val (VUni ''Utility Dive: Solar blast list'') = p @ sfx \<and> blast_list_re sfx \<longrightarrow>
        infer_dive_brand (VDict ?d) = Inr (with_text (VUni ''Utility Dive: Solar blast list'') p))"
    by blast
  then have "infer_dive_brand (VDict ?d)
      = Inr (with_text (VUni ''Utility Dive: Solar blast list'') ''Utility Dive: Solar'')"
    using h9 h10 by blast
  with r h1 h2 h4 h5 h6 h7 h8 h9 show ?thesis by simp
qed




section \<open>Properties of the range query\<close>

declare campaigns_loop.simps [simp del] page_windows.simps [simp del]

lemma blasts_loop_acc:
  "blasts_loop cs campaigns =
     (case blasts_loop cs [] of Inl e \<Rightarrow> Inl e | Inr new \<Rightarrow> Inr (campaigns @ new))"
proof (induction cs arbitrary: campaigns)
  case Nil
  then show ?case by simp
next
  case (Cons c cs)
  show ?case
  proof (cases "enrich c")
    case (Inl e)
    then show ?thesis by simp
  next
    case (Inr c')
    show ?thesis
      using Cons.IH [of "campaigns @ [c']"] Cons.IH [of "[c']"]
      by (simp add: Inr split: sum.splits)
  qed
qed

lemma blasts_loop_enrich:
  "blasts_loop cs [] = Inr out \<Longrightarrow> map Inr out = map enrich cs"
proof (induction cs arbitrary: out)
  case Nil
  then show ?case by simp
next
  case (Cons c cs)
  from Cons.prems obtain c' where c': "enrich c = Inr c'"
    by (auto split: sum.splits)
  with Cons.prems have "blasts_loop cs [c'] = Inr out" by simp
  then obtain new where new: "blasts_loop cs [] = Inr new" and out: "out = c' # new"
    by (subst (asm) blasts_loop_acc) (auto split: sum.splits)
  from Cons.IH [OF new] show ?case by (simp add: out c')
qed

lemma blasts_loop_total:
  "(\<And>c. c \<in> set cs \<Longrightarrow> \<exists>c'. enrich c = Inr c') \<Longrightarrow> \<exists>out. blasts_loop cs campaigns = Inr out"
proof (induction cs arbitrary: campaigns)
  case Nil
  then show ?case by simp
next
  case (Cons c cs)
  from Cons.prems [of c] obtain c' where "enrich c = Inr c'" by auto
  moreover have "\<exists>out. blasts_loop cs (campaigns @ [c']) = Inr out"
    using Cons.prems by (intro Cons.IH) simp
  ultimately show ?case by simp
qed

lemma map_of_dict_set_other: "k' \<noteq> k \<Longrightarrow> map_of (dict_set d k v) k' = map_of d k'"
  by (simp add: map_of_dict_set)

lemma campaign_ok_dict_set:
  "campaign_ok (VDict d) \<Longrightarrow> k \<notin> {''labels'', ''name'', ''list'', ''subject''} \<Longrightarrow>
     campaign_ok (VDict (dict_set d k v))"
  by (auto simp: map_of_dict_set)

lemma enrich_steps:
  assumes ok: "campaign_ok (VDict d)"
  shows "\<exists>t b. infer_dive_email_type (VDict d) = Inr t \<and>
    enrich (VDict d) =
      bind (py_getitem (VDict d) ''subject'') (\<lambda>s. bind (py_encode s) (\<lambda>s'.
        Inr (VDict (dict_set (dict_set (dict_set d ''dive_email_type'' (VStr t)) ''dive_brand'' b)
               ''subject'' s'))))"
proof -
  from infer_dive_email_type_total [OF ok] obtain t where
    t: "infer_dive_email_type (VDict d) = Inr t" by blast
  have ok1: "campaign_ok (VDict (dict_set d ''dive_email_type'' (VStr t)))"
    using ok by (intro campaign_ok_dict_set) simp_all
  from infer_dive_brand_total [OF ok1] obtain b where
    b: "infer_dive_brand (VDict (dict_set d ''dive_email_type'' (VStr t))) = Inr b" by blast
  have "map_of (dict_set (dict_set d ''dive_email_type'' (VStr t)) ''dive_brand'' b) ''subject''
      = map_of d ''subject''"
    by (simp add: map_of_dict_set)
  then have "enrich (VDict d) =
      bind (py_getitem (VDict d) ''subject'') (\<lambda>s. bind (py_encode s) (\<lambda>s'.
        Inr (VDict (dict_set (dict_set (dict_set d ''dive_email_type'' (VStr t)) ''dive_brand'' b)
               ''subject'' s'))))"
    by (simp add: enrich_def bind_def t b split: option.splits sum.splits)
  with t show ?thesis by blast
qed

lemma enrich_ok:
  assumes "sent_campaign_ok c"
  shows "\<exists>c'. enrich c = Inr c'"
proof -
  from assms obtain d where c: "c = VDict d" and ok: "campaign_ok (VDict d)"
    and key: "''subject'' \<in> fst ` set d"
    by (cases c) (auto simp: sent_campaign_ok_def)
  from key obtain s where s: "map_of d ''subject'' = Some s"
    by (cases "map_of d ''subject''") (auto simp: map_of_eq_None_iff)
  with ok have "is_encodable s" by simp
  from py_encode_total [OF this] obtain s' where "py_encode s = Inr (VStr s')" by blast
  with enrich_steps [OF ok] s show ?thesis
    by (auto simp: c bind_def)
qed

lemma enrich_no_subject:
  assumes "campaign_ok c" "\<not> has_key c ''subject''"
  shows "enrich c = Inl KeyError"
proof -
  from assms obtain d where c: "c = VDict d" and ok: "campaign_ok (VDict d)"
    and key: "''subject'' \<notin> fst ` set d"
    by (cases c) auto
  from key have "map_of d ''subject'' = None"
    by (simp add: map_of_eq_None_iff)
  with enrich_steps [OF ok] show ?thesis
    by (auto simp: c bind_def)
qed

lemma blasts_loop_no_subject:
  assumes "\<forall>c \<in> set cs. campaign_ok c" "\<exists>c \<in> set cs. \<not> has_key c ''subject''"
  shows "blasts_loop cs campaigns = Inl KeyError"
  using assms
proof (induction cs arbitrary: campaigns)
  case Nil
  then show ?case by simp
next
  case (Cons c cs)
  show ?case
  proof (cases "has_key c ''subject''")
    case True
    with Cons.prems have "sent_campaign_ok c" by (simp add: sent_campaign_ok_def)
    from enrich_ok [OF this] obtain c' where c': "enrich c = Inr c'" by blast
    from True Cons.prems have "\<exists>c \<in> set cs. \<not> has_key c ''subject''" by auto
    with Cons.IH [of "campaigns @ [c']"] Cons.prems c' show ?thesis by simp
  next
    case False
    with Cons.prems enrich_no_subject [of c] show ?thesis by simp
  qed
qed

lemma page_ok_body:
  assumes "page_ok P r"
  shows "is_ok r \<and> (\<exists>d. json r = VDict d \<and> dict_get d ''blasts'' (VList []) = VList (blasts_of r))
     \<and> (\<forall>c \<in> set (blasts_of r). P c)"
proof -
  from assms obtain d where d: "json r = VDict d"
    by (cases "json r") (auto simp: page_ok_def)
  with assms obtain cs where cs: "dict_get d ''blasts'' (VList []) = VList cs"
    by (cases "dict_get d ''blasts'' (VList [])") (auto simp: page_ok_def)
  with assms d show ?thesis
    by (auto simp: page_ok_def blasts_of_def)
qed

lemma page_campaigns_ok:
  assumes "page_ok sent_campaign_ok r"
  shows "\<exists>out. page_campaigns r = Inr out \<and> map Inr out = map enrich (rev (blasts_of r))"
proof -
  from page_ok_body [OF assms] obtain d where ok: "is_ok r" and d: "json r = VDict d"
    and cs: "dict_get d ''blasts'' (VList []) = VList (blasts_of r)"
    and all: "\<forall>c \<in> set (blasts_of r). sent_campaign_ok c" by blast
  have "\<exists>out. blasts_loop (rev (blasts_of r)) [] = Inr out"
    using all by (intro blasts_loop_total enrich_ok) simp
  then obtain out where out: "blasts_loop (rev (blasts_of r)) [] = Inr out" by blast
  have "page_campaigns r = Inr out"
    by (simp add: page_campaigns_def raise_exception_if_error_def bind_def ok d cs out)
  with blasts_loop_enrich [OF out] show ?thesis by blast
qed

lemma page_campaigns_api_error:
  assumes "\<not> is_ok r"
  shows "page_campaigns r = Inl (ApiError (format_error (error_message r) (error_code r)))"
  using assms by (simp add: page_campaigns_def raise_exception_if_error_def bind_def)

lemma page_campaigns_no_subject:
  assumes "page_ok campaign_ok r" "\<exists>c \<in> set (blasts_of r). \<not> has_key c ''subject''"
  shows "page_campaigns r = Inl KeyError"
proof -
  from page_ok_body [OF assms(1)] obtain d where ok: "is_ok r" and d: "json r = VDict d"
    and cs: "dict_get d ''blasts'' (VList []) = VList (blasts_of r)"
    and all: "\<forall>c \<in> set (blasts_of r). campaign_ok c" by blast
  have "blasts_loop (rev (blasts_of r)) [] = Inl KeyError"
    using all assms(2) by (intro blasts_loop_no_subject) simp_all
  then show ?thesis
    by (simp add: page_campaigns_def raise_exception_if_error_def bind_def ok d cs)
qed

lemma page_windows_empty: "end_date \<le> start_date \<Longrightarrow> page_windows start_date end_date = []"
  by (simp add: page_windows.simps)

lemma page_windows_step:
  "ps < e \<Longrightarrow>
     page_windows ps e = (ps, min e (ps + 30)) # page_windows (min e (ps + 30)) e"
  by (subst page_windows.simps) (simp add: PAGE_SIZE_IN_DAYS_def min_def Let_def)


lemma campaigns_loop_step:
  assumes "ps < e"
  shows "campaigns_loop api lname ps e calls campaigns =
     (case page_campaigns (api (window_query lname (ps, min e (ps + 30)))) of
        Inl err \<Rightarrow> (calls @ [window_query lname (ps, min e (ps + 30))], Inl err)
      | Inr new \<Rightarrow>
          campaigns_loop api lname (min e (ps + 30)) e
            (calls @ [window_query lname (ps, min e (ps + 30))]) (campaigns @ new))"
proof -
  let ?q = "window_query lname (ps, min e (ps + 30))"
  have pe: "(if e < ps + PAGE_SIZE_IN_DAYS then e else ps + PAGE_SIZE_IN_DAYS) = min e (ps + 30)"
    by (simp add: PAGE_SIZE_IN_DAYS_def min_def)
  have q: "\<lparr>q_status = ''sent'', q_start_date = ps, q_end_date = min e (ps + 30), q_list = lname\<rparr> = ?q"
    by (simp add: window_query_def)
  show ?thesis
  proof (cases "raise_exception_if_error (api ?q)")
    case (Inl err)
    then show ?thesis
      using assms
      by (subst campaigns_loop.simps) (simp add: pe q Let_def page_campaigns_def bind_def)
  next
    case (Inr u)
    show ?thesis
    proof (cases "bind (py_get (json (api ?q)) ''blasts'' (VList [])) py_reversed")
      case (Inl err)
      then show ?thesis
        using assms Inr
        by (subst campaigns_loop.simps) (simp add: pe q Let_def page_campaigns_def bind_def)
    next
      case cs: (Inr cs)
      show ?thesis
        using assms Inr cs
        by (subst campaigns_loop.simps, subst blasts_loop_acc)
          (simp add: pe q Let_def page_campaigns_def bind_def split: sum.splits)
    qed
  qed
qed


lemma campaigns_loop_first_error:
  assumes "page_windows ps e = ws1 @ w # ws2"
    and "\<And>w'. w' \<in> set ws1 \<Longrightarrow> \<exists>new. page_campaigns (api (window_query lname w')) = Inr new"
    and "page_campaigns (api (window_query lname w)) = Inl err"
  shows "campaigns_loop api lname ps e calls campaigns =
     (calls @ map (window_query lname) (ws1 @ [w]), Inl err)"
  using assms
proof (induction ws1 arbitrary: ps calls campaigns)
  case Nil
  have lt: "ps < e"
    using Nil.prems(1) page_windows_empty [of e ps] by (cases "ps < e") simp_all
  from Nil.prems(1) page_windows_step [OF lt] have w: "w = (ps, min e (ps + 30))" by simp
  show ?case
    using Nil.prems(3) by (simp add: campaigns_loop_step [OF lt] w)
next
  case (Cons w1 ws1)
  have lt: "ps < e"
    using Cons.prems(1) page_windows_empty [of e ps] by (cases "ps < e") simp_all
  from Cons.prems(1) page_windows_step [OF lt]
  have w1: "w1 = (ps, min e (ps + 30))"
    and rest: "page_windows (min e (ps + 30)) e = ws1 @ w # ws2" by simp_all
  from Cons.prems(2) [of w1] obtain new where
    new: "page_campaigns (api (window_query lname w1)) = Inr new" by auto
  have "campaigns_loop api lname (min e (ps + 30)) e (calls @ [window_query lname w1]) (campaigns @ new)
      = ((calls @ [window_query lname w1]) @ map (window_query lname) (ws1 @ [w]), Inl err)"
    using Cons.prems(2,3) by (intro Cons.IH [OF rest]) simp_all
  then show ?case
    using new by (simp add: campaigns_loop_step [OF lt] w1)
qed

lemma page_windows_bounds:
  "w \<in> set (page_windows s e) \<Longrightarrow>
     s \<le> fst w \<and> fst w < snd w \<and> snd w \<le> e \<and> snd w \<le> fst w + 30"
proof (induction s e rule: page_windows.induct)
  case (1 s e)
  show ?case
  proof (cases "s < e")
    case False
    with "1.prems" show ?thesis by (simp add: page_windows_empty)
  next
    case True
    have pe: "(if e < s + PAGE_SIZE_IN_DAYS then e else s + PAGE_SIZE_IN_DAYS) = min e (s + 30)"
      by (simp add: PAGE_SIZE_IN_DAYS_def min_def)
    from "1.prems" page_windows_step [OF True]
    consider "w = (s, min e (s + 30))" | "w \<in> set (page_windows (min e (s + 30)) e)" by auto
    then show ?thesis
    proof cases
      case 1
      with True show ?thesis by simp
    next
      case 2
      have "s \<le> min e (s + 30)" using True by simp
      with "1.IH" [OF True refl, unfolded pe, OF 2] show ?thesis by linarith
    qed
  qed
qed






section \<open>Claims about the range query\<close>





text \<open>
  C5. When the response for a window reports failure, and the windows before it were
  processed without an exception (as they are whenever they are answered with successful,
  well-formed responses, \<open>page_campaigns_ok\<close>), the call raises the API error with
  the text \<open>"<message> (<code>)"\<close> of that response, \<open>"Invalid API key (9)"\<close> for the
  message \<open>Invalid API key\<close> and the code 9. The result is the error alone, without
  campaigns; the queries sent are those of the windows up to the failing one, each once.
\<close>

theorem get_campaigns_in_range_api_error:
  "(page_windows start_date end_date = ws1 @ w # ws2 \<longrightarrow>
    (\<forall>w' \<in> set ws1. \<exists>new. page_campaigns (api_get (window_query list_name w')) = Inr new) \<longrightarrow>
    \<not> is_ok (api_get (window_query list_name w)) \<longrightarrow>
      get_campaigns_in_range api_get start_date end_date list_name
        = (map (window_query list_name) (ws1 @ [w]),
           Inl (ApiError (error_message (api_get (window_query list_name w)) @ '' ('' @
                  str_of_int (error_code (api_get (window_query list_name w))) @ '')''))))
   \<and> format_error ''Invalid API key'' 9 = ''Invalid API key (9)''"
proof (intro conjI impI)
  assume ws: "page_windows start_date end_date = ws1 @ w # ws2"
    and ok: "\<forall>w' \<in> set ws1. \<exists>new. page_campaigns (api_get (window_query list_name w')) = Inr new"
    and bad: "\<not> is_ok (api_get (window_query list_name w))"
  have "\<exists>new. page_campaigns (api_get (window_query list_name w')) = Inr new"
    if "w' \<in> set ws1" for w'
    using ok that by blast
  from campaigns_loop_first_error [where api = api_get and lname = list_name, OF ws this
      page_campaigns_api_error [OF bad]]
  show "get_campaigns_in_range api_get start_date end_date list_name
        = (map (window_query list_name) (ws1 @ [w]),
           Inl (ApiError (error_message (api_get (window_query list_name w)) @ '' ('' @
                  str_of_int (error_code (api_get (window_query list_name w))) @ '')'')))"
    by (simp add: get_campaigns_in_range_def format_error_def)
next
  show "format_error ''Invalid API key'' 9 = ''Invalid API key (9)''"
    by code_simp
qed

theorem get_campaigns_in_range_api_error_witness:
  "page_windows 0 65 = [(0, 30)] @ (30, 60) # [(60, 65)]
   \<and> (\<exists>new. page_campaigns (demo_api_failing (window_query None (0, 30))) = Inr new)
   \<and> \<not> is_ok (demo_api_failing (window_query None (30, 60)))
   \<and> get_campaigns_in_range demo_api_failing 0 65 None
       = ([window_query None (0, 30), window_query None (30, 60)],
          Inl (ApiError ''Invalid API key (9)''))"
proof -
  have w: "page_windows 0 65 = [(0, 30)] @ (30, 60) # [(60, 65)]"
    by code_simp
  have "page_ok sent_campaign_ok (demo_api_failing (window_query None (0, 30)))"
    by (simp add: page_ok_def sent_campaign_ok_def demo_api_failing_def demo_api_def
        demo_response_def demo_blast_def window_query_def dict_get_def)
  from page_campaigns_ok [OF this]
  have ok: "\<forall>w' \<in> set [(0, 30)].
      \<exists>new. page_campaigns (demo_api_failing (window_query None w')) = Inr new"
    by auto
  have bad: "\<not> is_ok (demo_api_failing (window_query None (30, 60)))"
    by (simp add: demo_api_failing_def demo_failure_def window_query_def)
  have msg: "error_message (demo_api_failing (window_query None (30, 60))) @ '' ('' @
      str_of_int (error_code (demo_api_failing (window_query None (30, 60)))) @ '')''
      = ''Invalid API key (9)''"
    by code_simp
  show ?thesis
    using get_campaigns_in_range_api_error
        [of 0 65 "[(0, 30)]" "(30, 60)" "[(60, 65)]" demo_api_failing None] w ok bad
    unfolding msg
    by simp
qed

text \<open>
  C10. When a window is answered with typed campaign records of which one has no
  \<open>subject\<close> key (the windows before it being processed without an exception),
  the call raises \<open>KeyError\<close>, not the API error: the loop body indexes \<open>c['subject']\<close>.
  The classifier itself accepts such a record: both inference functions return on it.
\<close>

theorem get_campaigns_in_range_missing_subject:
  "(page_windows start_date end_date = ws1 @ w # ws2 \<longrightarrow>
    (\<forall>w' \<in> set ws1. \<exists>new. page_campaigns (api_get (window_query list_name w')) = Inr new) \<longrightarrow>
    page_ok campaign_ok (api_get (window_query list_name w)) \<longrightarrow>
    (\<exists>c \<in> set (blasts_of (api_get (window_query list_name w))). \<not> has_key c ''subject'') \<longrightarrow>
      get_campaigns_in_range api_get start_date end_date list_name
        = (map (window_query list_name) (ws1 @ [w]), Inl KeyError))
   \<and> (campaign_ok c \<longrightarrow> \<not> has_key c ''subject'' \<longrightarrow>
        enrich c = Inl KeyError \<and>
        (\<exists>t b. infer_dive_email_type c = Inr t \<and> infer_dive_brand c = Inr b))"
proof (intro conjI impI)
  assume ws: "page_windows start_date end_date = ws1 @ w # ws2"
    and ok: "\<forall>w' \<in> set ws1. \<exists>new. page_campaigns (api_get (window_query list_name w')) = Inr new"
    and typed: "page_ok campaign_ok (api_get (window_query list_name w))"
    and missing: "\<exists>c \<in> set (blasts_of (api_get (window_query list_name w))). \<not> has_key c ''subject''"
  have "\<exists>new. page_campaigns (api_get (window_query list_name w')) = Inr new"
    if "w' \<in> set ws1" for w'
    using ok that by blast
  from campaigns_loop_first_error [where api = api_get and lname = list_name, OF ws this
      page_campaigns_no_subject [OF typed missing]]
  show "get_campaigns_in_range api_get start_date end_date list_name
        = (map (window_query list_name) (ws1 @ [w]), Inl KeyError)"
    by (simp add: get_campaigns_in_range_def)
next
  assume "campaign_ok c" "\<not> has_key c ''subject''"
  then show "enrich c = Inl KeyError" by (rule enrich_no_subject)
next
  assume "campaign_ok c"
  with infer_dive_email_type_total [of c] infer_dive_brand_total [of c]
  show "\<exists>t b. infer_dive_email_type c = Inr t \<and> infer_dive_brand c = Inr b" by blast
qed

theorem get_campaigns_in_range_missing_subject_witness:
  "page_windows 0 65 = [(0, 30)] @ (30, 60) # [(60, 65)]
   \<and> (\<exists>new. page_campaigns (demo_api_no_subject (window_query None (0, 30))) = Inr new)
   \<and> page_ok campaign_ok (demo_api_no_subject (window_query None (30, 60)))
   \<and> (\<exists>c \<in> set (blasts_of (demo_api_no_subject (window_query None (30, 60)))).
         \<not> has_key c ''subject'')
   \<and> get_campaigns_in_range demo_api_no_subject 0 65 None
       = ([window_query None (0, 30), window_query None (30, 60)], Inl KeyError)
   \<and> campaign_ok (VDict [(''day'', VInt 31)]) \<and> \<not> has_key (VDict [(''day'', VInt 31)]) ''subject''
   \<and> enrich (VDict [(''day'', VInt 31)]) = Inl KeyError
   \<and> infer_dive_email_type (VDict [(''day'', VInt 31)]) = Inr Unknown
   \<and> infer_dive_brand (VDict [(''day'', VInt 31)]) = Inr VNone"
proof -
  have w: "page_windows 0 65 = [(0, 30)] @ (30, 60) # [(60, 65)]"
    by code_simp
  have "page_ok sent_campaign_ok (demo_api_no_subject (window_query None (0, 30)))"
    by (simp add: page_ok_def sent_campaign_ok_def demo_api_no_subject_def demo_api_def
        demo_response_def demo_blast_def window_query_def dict_get_def)
  from page_campaigns_ok [OF this]
  have ok: "\<forall>w' \<in> set [(0, 30)].
      \<exists>new. page_campaigns (demo_api_no_subject (window_query None w')) = Inr new"
    by auto
  have typed: "page_ok campaign_ok (demo_api_no_subject (window_query None (30, 60)))"
    by (simp add: page_ok_def demo_api_no_subject_def demo_response_def demo_blast_def
        window_query_def dict_get_def)
  have missing: "\<exists>c \<in> set (blasts_of (demo_api_no_subject (window_query None (30, 60)))).
         \<not> has_key c ''subject''"
    by (simp add: blasts_of_def demo_api_no_subject_def demo_response_def demo_blast_def
        window_query_def dict_get_def)
  have c: "campaign_ok (VDict [(''day'', VInt 31)])"
    "\<not> has_key (VDict [(''day'', VInt 31)]) ''subject''" by simp_all
  have e: "infer_dive_email_type (VDict [(''day'', VInt 31)]) = Inr Unknown"
    "infer_dive_brand (VDict [(''day'', VInt 31)]) = Inr VNone" by code_simp+
  show ?thesis
    using get_campaigns_in_range_missing_subject
        [of 0 65 "[(0, 30)]" "(30, 60)" "[(60, 65)]" demo_api_no_subject None
            "VDict [(''day'', VInt 31)]"] w ok typed missing c e
    by simp
qed


end
